theory Spec2Isabelle
  imports
    Main
    "HOL-Library.Word"
    "HOL-Library.List_Lexorder"
    "HOL-Library.Product_Lexorder"
begin

section \<open>Strings, paths and the filesystem snapshot\<close>

text \<open>
  A Python \<open>str\<close> is a sequence of code points, so it is a list of naturals; slicing and
  \<open>len\<close> count code points, and \<open>str\<close> comparison is the lexicographic order of the
  code points (the order \<open>HOL-Library.List_Lexorder\<close> gives to \<open>nat list\<close>).
  \<open>lit\<close> embeds an ASCII literal of the source.
\<close>

type_synonym ustr = "nat list"

definition lit :: "string \<Rightarrow> ustr" where
  "lit s = map of_char s"

text \<open>
  \<open>str.lower()\<close>, on the ASCII letters. Python also lowers the letters beyond ASCII;
  the model leaves those code points as they are.
\<close>

definition lower_cp :: "nat \<Rightarrow> nat" where
  "lower_cp c = (if 65 \<le> c \<and> c \<le> 90 then c + 32 else c)"

definition str_lower :: "ustr \<Rightarrow> ustr" where
  "str_lower s = map lower_cp s"

text \<open>\<open>s.startswith(".")\<close>: the first code point is 46.\<close>

definition starts_with_dot :: "ustr \<Rightarrow> bool" where
  "starts_with_dot s = (case s of [] \<Rightarrow> False | c # _ \<Rightarrow> c = 46)"

text \<open>
  A \<open>pathlib.Path\<close> of the application is absolute: the list of its components under the
  root, the root being the empty list. \<open>Path.parent\<close> drops the last component and the
  root is its own parent; \<open>Path.name\<close> is the last component, empty for the root.
  Two paths are equal when their components are.
\<close>

type_synonym path = "ustr list"

definition parent :: "path \<Rightarrow> path" where
  "parent p = butlast p"

definition name_of :: "path \<Rightarrow> ustr" where
  "name_of p = (if p = [] then [] else last p)"

text \<open>
  The filesystem at one instant, as the system calls of the program see it: a tree of
  regular files (with a read permission and their bytes), directories (with their
  permission and their entries, in the order the operating system enumerates them) and
  symbolic links (with an absolute target). A directory is open (it may be read and
  searched) or closed (neither): the flag of \<open>Dir\<close> is the one permission.
\<close>

type_synonym byte = "8 word"

datatype node =
    File bool "byte list"
  | Dir bool "(ustr \<times> node) list"
  | Symlink path

datatype error =
    PermissionError
  | FileNotFoundError
  | NotADirectoryError
  | IsADirectoryError
  | LoopError
  | OSError

text \<open>
  Path resolution from the root directory \<open>root\<close>. A symbolic link met on the way is
  followed (resolution starts again at the root with the link's target), each time
  spending one unit of \<open>fuel\<close>; the kernel gives up after 40 links (\<open>ELOOP\<close>). Looking
  a name up in a closed directory fails with \<open>PermissionError\<close> (\<open>EACCES\<close>). With
  \<open>follow = False\<close> a link in the last component is returned itself (\<open>lstat\<close>).
\<close>

fun walk :: "nat \<Rightarrow> node \<Rightarrow> bool \<Rightarrow> node \<Rightarrow> path \<Rightarrow> error + node" where
  "walk fuel root follow cur [] = Inr cur"
| "walk fuel root follow cur (c # cs) =
     (case cur of
        Dir r ents \<Rightarrow>
          if \<not> r then Inl PermissionError
          else
            (case map_of ents c of
               None \<Rightarrow> Inl FileNotFoundError
             | Some (Symlink t) \<Rightarrow>
                 if cs = [] \<and> \<not> follow then Inr (Symlink t)
                 else (case fuel of
                         0 \<Rightarrow> Inl LoopError
                       | Suc n \<Rightarrow> walk n root follow root (t @ cs))
             | Some nd \<Rightarrow> walk fuel root follow nd cs)
      | _ \<Rightarrow> Inl NotADirectoryError)"

definition stat :: "node \<Rightarrow> path \<Rightarrow> error + node" where
  "stat fs p = walk 40 fs True fs p"

definition lstat :: "node \<Rightarrow> path \<Rightarrow> error + node" where
  "lstat fs p = walk 40 fs False fs p"

text \<open>
  \<open>Path.exists\<close>, \<open>Path.is_dir\<close> (both follow links) and \<open>Path.is_symlink\<close>, as
  \<open>pathlib\<close> has them up to Python 3.12: when the resolution fails with \<open>ENOENT\<close>,
  \<open>ENOTDIR\<close> or \<open>ELOOP\<close> they answer \<open>False\<close>, and any other error, here
  \<open>PermissionError\<close>, is raised again.
\<close>

definition ignore_error :: "error \<Rightarrow> bool" where
  "ignore_error e = (e = FileNotFoundError \<or> e = NotADirectoryError \<or> e = LoopError)"

definition exists :: "node \<Rightarrow> path \<Rightarrow> error + bool" where
  "exists fs p =
     (case stat fs p of
        Inr nd \<Rightarrow> Inr True
      | Inl e \<Rightarrow> if ignore_error e then Inr False else Inl e)"

definition is_dir :: "node \<Rightarrow> path \<Rightarrow> error + bool" where
  "is_dir fs p =
     (case stat fs p of
        Inr (Dir r ents) \<Rightarrow> Inr True
      | Inr nd \<Rightarrow> Inr False
      | Inl e \<Rightarrow> if ignore_error e then Inr False else Inl e)"

definition is_symlink :: "node \<Rightarrow> path \<Rightarrow> error + bool" where
  "is_symlink fs p =
     (case lstat fs p of
        Inr (Symlink t) \<Rightarrow> Inr True
      | Inr nd \<Rightarrow> Inr False
      | Inl e \<Rightarrow> if ignore_error e then Inr False else Inl e)"

text \<open>
  A loop or comprehension over \<open>xs\<close> whose body \<open>f\<close> may raise: the results in order,
  or the first error.
\<close>

fun map_err :: "('a \<Rightarrow> error + 'b) \<Rightarrow> 'a list \<Rightarrow> error + 'b list" where
  "map_err f [] = Inr []"
| "map_err f (x # xs) =
     (case f x of
        Inl e \<Rightarrow> Inl e
      | Inr y \<Rightarrow> (case map_err f xs of Inl e \<Rightarrow> Inl e | Inr ys \<Rightarrow> Inr (y # ys)))"

text \<open>
  \<open>Path.iterdir\<close>: the children of a directory as paths \<open>p / name\<close>, in the
  operating system's order. It raises \<open>PermissionError\<close> on a closed directory, and the
  error of the resolution otherwise.
\<close>

definition iterdir :: "node \<Rightarrow> path \<Rightarrow> error + path list" where
  "iterdir fs p =
     (case stat fs p of
        Inl e \<Rightarrow> Inl e
      | Inr (Dir r ents) \<Rightarrow>
          if r then Inr (map (\<lambda>(n, _). p @ [n]) ents) else Inl PermissionError
      | Inr _ \<Rightarrow> Inl NotADirectoryError)"

section \<open>Entry catalog: \<open>FileList.get_entries\<close>\<close>

text \<open>
  \<open>sorted(ps, key=lambda p: (not p.is_dir(), p.name.lower()))\<close>. Python computes the key
  of every element first, in order, and an \<open>is_dir()\<close> that raises ends the call; it
  then sorts the pairs of key and element by the key alone, with a stable sort as
  \<open>sort_key\<close> is, and yields the elements. The tuples compare lexicographically, \<open>False\<close>
  before \<open>True\<close>.
\<close>

definition key_of :: "node \<Rightarrow> path \<Rightarrow> error + bool \<times> ustr" where
  "key_of fs p =
     (case is_dir fs p of
        Inl e \<Rightarrow> Inl e
      | Inr d \<Rightarrow> Inr (\<not> d, str_lower (name_of p)))"

definition sorted_by_key :: "node \<Rightarrow> path list \<Rightarrow> error + path list" where
  "sorted_by_key fs ps =
     (case map_err (key_of fs) ps of
        Inl e \<Rightarrow> Inl e
      | Inr ks \<Rightarrow> Inr (map snd (sort_key fst (zip ks ps))))"

text \<open>The key as a total function: the value \<open>key_of\<close> yields when \<open>is_dir()\<close> returns.\<close>

definition entry_key :: "node \<Rightarrow> path \<Rightarrow> bool \<times> ustr" where
  "entry_key fs p = (is_dir fs p \<noteq> Inr True, str_lower (name_of p))"

definition hidden_filter :: "path list \<Rightarrow> path list" where
  "hidden_filter es = filter (\<lambda>e. \<not> starts_with_dot (name_of e)) es"

text \<open>
  \<open>get_entries\<close> sorts what \<open>iterdir\<close> yields, returns the empty list when a
  \<open>PermissionError\<close> leaves the \<open>try\<close> (from \<open>iterdir\<close> or from the \<open>is_dir()\<close> of a sort
  key; any other error propagates), and filters the hidden names out of the sorted list
  when \<open>show_hidden\<close> is off.
\<close>

definition get_entries :: "node \<Rightarrow> path \<Rightarrow> bool \<Rightarrow> error + path list" where
  "get_entries fs cur show_hidden =
     (case iterdir fs cur of
        Inl PermissionError \<Rightarrow> Inr []
      | Inl e \<Rightarrow> Inl e
      | Inr children \<Rightarrow>
          (case sorted_by_key fs children of
             Inl PermissionError \<Rightarrow> Inr []
           | Inl e \<Rightarrow> Inl e
           | Inr entries \<Rightarrow>
               if \<not> show_hidden then Inr (hidden_filter entries) else Inr entries))"


text \<open>
  The scenario of the specification: the directory \<open>/tmp/x\<close> holds the regular files
  \<open>b.txt\<close> and \<open>.hidden\<close> and the directory \<open>A\<close>; \<open>ents\<close> is the order in which the
  operating system enumerates them.
\<close>

definition tmp_x :: path where
  "tmp_x = [lit ''tmp'', lit ''x'']"

definition e_btxt :: "ustr \<times> node" where
  "e_btxt = (lit ''b.txt'', File True [])"

definition e_A :: "ustr \<times> node" where
  "e_A = (lit ''A'', Dir True [])"

definition e_hidden :: "ustr \<times> node" where
  "e_hidden = (lit ''.hidden'', File True [])"

definition scenario_fs :: "(ustr \<times> node) list \<Rightarrow> node" where
  "scenario_fs ents = Dir True [(lit ''tmp'', Dir True [(lit ''x'', Dir True ents)])]"

section \<open>Preview generator: \<open>PreviewPane.render_preview\<close>\<close>

text \<open>
  \<open>bytes.decode("utf-8", errors="replace")\<close>. A byte sequence that is not well-formed
  UTF-8 is replaced by U+FFFD (65533) and decoding goes on behind it: an invalid start
  byte alone, a lead byte with the continuation bytes that were valid so far when the
  next one is not, and the whole rest when the data ends inside a sequence. Overlong
  forms, surrogates and code points above U+10FFFF are invalid.
\<close>

definition replacement :: nat where
  "replacement = 65533"

definition is_cont :: "nat \<Rightarrow> bool" where
  "is_cont c = (128 \<le> c \<and> c < 192)"

text \<open>
  One step of the decoder on the first byte \<open>b\<close> and the bytes \<open>bs\<close> behind it: the
  code point it yields and how many bytes of \<open>bs\<close> it consumes with \<open>b\<close>.
\<close>

definition decode_step :: "byte \<Rightarrow> byte list \<Rightarrow> nat \<times> nat" where
  "decode_step b bs =
     (let ch = unat b in
      if ch < 128 then (ch, 0)
      else if ch < 194 then (replacement, 0)
      else if ch < 224 then
        (case bs of
           [] \<Rightarrow> (replacement, 0)
         | b2 # r2 \<Rightarrow>
             if is_cont (unat b2)
             then ((ch - 192) * 64 + (unat b2 - 128), 1)
             else (replacement, 0))
      else if ch < 240 then
        (case bs of
           [] \<Rightarrow> (replacement, 0)
         | b2 # r2 \<Rightarrow>
             if \<not> is_cont (unat b2) \<or> (if unat b2 < 160 then ch = 224 else ch = 237)
             then (replacement, 0)
             else
               (case r2 of
                  [] \<Rightarrow> (replacement, 1)
                | b3 # r3 \<Rightarrow>
                    if is_cont (unat b3)
                    then ((ch - 224) * 4096 + (unat b2 - 128) * 64 + (unat b3 - 128), 2)
                    else (replacement, 1)))
      else if ch < 245 then
        (case bs of
           [] \<Rightarrow> (replacement, 0)
         | b2 # r2 \<Rightarrow>
             if \<not> is_cont (unat b2) \<or> (if unat b2 < 144 then ch = 240 else ch = 244)
             then (replacement, 0)
             else
               (case r2 of
                  [] \<Rightarrow> (replacement, 1)
                | b3 # r3 \<Rightarrow>
                    if \<not> is_cont (unat b3) then (replacement, 1)
                    else
                      (case r3 of
                         [] \<Rightarrow> (replacement, 2)
                       | b4 # r4 \<Rightarrow>
                           if is_cont (unat b4)
                           then ((ch - 240) * 262144 + (unat b2 - 128) * 4096
                                   + (unat b3 - 128) * 64 + (unat b4 - 128), 3)
                           else (replacement, 2))))
      else (replacement, 0))"

fun decode_utf8 :: "byte list \<Rightarrow> ustr" where
  "decode_utf8 [] = []"
| "decode_utf8 (b # bs) =
     (case decode_step b bs of (cp, k) \<Rightarrow> cp # decode_utf8 (drop k bs))"

text \<open>
  \<open>str.splitlines()\<close>: the text is cut at every line boundary (line feed, carriage
  return, the pair of the two, vertical tab, form feed, the separators 28 to 30, NEL,
  and the line and paragraph separators U+2028 and U+2029); the boundaries are dropped,
  and a boundary at the very end opens no further line. \<open>cur\<close> is the line being read.
\<close>

definition is_linebreak :: "nat \<Rightarrow> bool" where
  "is_linebreak c = (c \<in> {10, 11, 12, 13, 28, 29, 30, 133, 8232, 8233})"

fun splitlines_from :: "ustr \<Rightarrow> ustr \<Rightarrow> ustr list" where
  "splitlines_from cur [] = (if cur = [] then [] else [cur])"
| "splitlines_from cur [c] =
     (if is_linebreak c then [cur] else [cur @ [c]])"
| "splitlines_from cur (c # d # cs) =
     (if c = 13 \<and> d = 10 then cur # splitlines_from [] cs
      else if is_linebreak c then cur # splitlines_from [] (d # cs)
      else splitlines_from (cur @ [c]) (d # cs))"

definition splitlines :: "ustr \<Rightarrow> ustr list" where
  "splitlines s = splitlines_from [] s"

text \<open>\<open>"\n".join(lines)\<close>.\<close>

fun join_lines :: "ustr list \<Rightarrow> ustr" where
  "join_lines [] = []"
| "join_lines [l] = l"
| "join_lines (l # m # ls) = l @ [10] @ join_lines (m # ls)"

text \<open>
  \<open>PurePath.suffix\<close>: the name from its last dot on, when that dot is neither the first
  nor the last character of the name; empty otherwise.
\<close>

fun rfind_dot :: "ustr \<Rightarrow> nat option" where
  "rfind_dot [] = None"
| "rfind_dot (c # cs) =
     (case rfind_dot cs of
        Some i \<Rightarrow> Some (Suc i)
      | None \<Rightarrow> if c = 46 then Some 0 else None)"

definition suffix :: "path \<Rightarrow> ustr" where
  "suffix p =
     (case rfind_dot (name_of p) of
        None \<Rightarrow> []
      | Some i \<Rightarrow> if 0 < i \<and> i + 1 < length (name_of p) then drop i (name_of p) else [])"

definition MAX_PREVIEW_LINES :: nat where
  "MAX_PREVIEW_LINES = 80"

definition MAX_LINE_LEN :: nat where
  "MAX_LINE_LEN = 200"

definition MAX_PREVIEW_BYTES :: nat where
  "MAX_PREVIEW_BYTES = 64 * 1024"

definition BINARY_EXTENSIONS :: "ustr list" where
  "BINARY_EXTENSIONS = map lit
     [''.png'', ''.jpg'', ''.jpeg'', ''.gif'', ''.bmp'', ''.ico'', ''.webp'', ''.tiff'', ''.tif'',
      ''.svg'', ''.mp3'', ''.mp4'', ''.mkv'', ''.avi'', ''.mov'', ''.flac'', ''.wav'', ''.ogg'',
      ''.webm'', ''.zip'', ''.tar'', ''.gz'', ''.bz2'', ''.xz'', ''.zst'', ''.7z'', ''.rar'',
      ''.pdf'', ''.doc'', ''.docx'', ''.xls'', ''.xlsx'', ''.ppt'', ''.pptx'',
      ''.so'', ''.dylib'', ''.dll'', ''.exe'', ''.o'', ''.a'', ''.pyc'', ''.pyo'',
      ''.woff'', ''.woff2'', ''.ttf'', ''.otf'', ''.eot'',
      ''.db'', ''.sqlite'', ''.sqlite3'',
      ''.bin'', ''.dat'', ''.iso'', ''.img'']"

text \<open>
  What the program takes from outside this file, as parameters: \<open>rich.markup.escape\<close>;
  the header line of the preview (built from \<open>lstat\<close>, the user and group databases, and
  floating-point and local-time formatting; empty when \<open>lstat\<close> fails); \<open>format_size\<close>
  (floating-point formatting); the size and time columns of the file list (with their
  "unknown" sentinels when \<open>lstat\<close> fails); and \<open>os.access(entry, os.X_OK)\<close>.
\<close>

record env =
  escape :: "ustr \<Rightarrow> ustr"
  header_of :: "path \<Rightarrow> ustr"
  fmt_size :: "nat \<Rightarrow> ustr"
  size_col :: "path \<Rightarrow> ustr"
  mtime_col :: "path \<Rightarrow> ustr"
  x_ok :: "path \<Rightarrow> bool"

text \<open>\<open>str(n)\<close> for a natural number, and \<open>str(path)\<close>.\<close>

fun str_of_nat :: "nat \<Rightarrow> ustr" where
  "str_of_nat n = (if n < 10 then [48 + n] else str_of_nat (n div 10) @ [48 + n mod 10])"

definition str_path :: "path \<Rightarrow> ustr" where
  "str_path p = (if p = [] then [47] else concat (map (\<lambda>c. 47 # c) p))"

text \<open>\<open>stat().st_size\<close> of a node, and \<open>Path.read_bytes\<close>.\<close>

fun st_size :: "node \<Rightarrow> nat" where
  "st_size (File r bs) = length bs"
| "st_size (Dir r ents) = 0"
| "st_size (Symlink t) = 0"

definition read_bytes :: "node \<Rightarrow> path \<Rightarrow> error + byte list" where
  "read_bytes fs p =
     (case stat fs p of
        Inl e \<Rightarrow> Inl e
      | Inr (File r bs) \<Rightarrow> if r then Inr bs else Inl PermissionError
      | Inr (Dir r ents) \<Rightarrow> Inl IsADirectoryError
      | Inr (Symlink t) \<Rightarrow> Inl OSError)"

text \<open>
  The preview of \<open>render_preview\<close>, one constructor for each \<open>return\<close> of the source, in
  the order of the source. A directory digest holds, for the first 50 entries, whether
  the entry is a directory and its name, and the number of all entries.
\<close>

datatype preview =
    NoSelection
  | DoesNotExist
  | DirDenied
  | DirDigest "(bool \<times> ustr) list" nat
  | BinaryExt ustr
  | TooLarge nat
  | BinaryContent
  | TextContent ustr
  | CannotRead

definition text_body :: "byte list \<Rightarrow> ustr" where
  "text_body raw =
     (let decoded = decode_utf8 raw;
          kept = take MAX_PREVIEW_LINES (splitlines decoded);
          truncated = map (take MAX_LINE_LEN) kept
      in join_lines truncated)"

definition preview_of :: "node \<Rightarrow> bool \<Rightarrow> path option \<Rightarrow> error + preview" where
  "preview_of fs hidden_shown sel =
     (case sel of
        None \<Rightarrow> Inr NoSelection
      | Some p \<Rightarrow>
          (case exists fs p of
             Inl e \<Rightarrow> Inl e
           | Inr False \<Rightarrow> Inr DoesNotExist
           | Inr True \<Rightarrow>
               (case is_dir fs p of
                  Inl e \<Rightarrow> Inl e
                | Inr True \<Rightarrow>
                    (case (case iterdir fs p of
                             Inl e \<Rightarrow> Inl e
                           | Inr children \<Rightarrow> sorted_by_key fs children) of
                       Inl PermissionError \<Rightarrow> Inr DirDenied
                     | Inl e \<Rightarrow> Inl e
                     | Inr sorted_entries \<Rightarrow>
                         (let entries = (if \<not> hidden_shown then hidden_filter sorted_entries
                                         else sorted_entries)
                          in case map_err (is_dir fs) (take 50 entries) of
                               Inl e \<Rightarrow> Inl e
                             | Inr ds \<Rightarrow>
                                 Inr (DirDigest (zip ds (map name_of (take 50 entries)))
                                        (length entries))))
                | Inr False \<Rightarrow>
                    if str_lower (suffix p) \<in> set BINARY_EXTENSIONS
                    then Inr (BinaryExt (suffix p))
                    else
                      (let file_size = (case stat fs p of Inr nd \<Rightarrow> st_size nd | Inl e \<Rightarrow> 0)
                       in if file_size > MAX_PREVIEW_BYTES then Inr (TooLarge file_size)
                          else
                            (case read_bytes fs p of
                               Inl e \<Rightarrow> Inr CannotRead
                             | Inr bs \<Rightarrow>
                                 (let raw = take MAX_PREVIEW_BYTES bs
                                  in if 0 \<in> set (take 1024 raw) then Inr BinaryContent
                                     else Inr (TextContent (text_body raw))))))))"

text \<open>The string of each preview, with the header where the source puts one.\<close>

definition digest_line :: "env \<Rightarrow> bool \<times> ustr \<Rightarrow> ustr" where
  "digest_line ev l =
     (if fst l then lit ''[bold cyan]'' @ escape ev (snd l) @ lit ''/[/]''
      else escape ev (snd l))"

fun markup :: "env \<Rightarrow> ustr \<Rightarrow> preview \<Rightarrow> ustr" where
  "markup ev header NoSelection = []"
| "markup ev header DoesNotExist = lit ''[dim]Path does not exist[/]''"
| "markup ev header DirDenied = header @ lit ''[red]Permission denied[/]''"
| "markup ev header (DirDigest ls n) =
     header @ join_lines
       (map (digest_line ev) ls @
        (if n > 50 then [lit ''[dim]... and '' @ str_of_nat (n - 50) @ lit '' more[/]'']
         else []))"
| "markup ev header (BinaryExt sfx) =
     header @ lit ''[dim italic]Binary file ('' @ escape ev sfx @ lit '')[/]''"
| "markup ev header (TooLarge n) =
     header @ lit ''[dim italic]File too large for preview ('' @ fmt_size ev n @ lit '')[/]''"
| "markup ev header BinaryContent = header @ lit ''[dim italic]Binary file[/]''"
| "markup ev header (TextContent c) = header @ escape ev c"
| "markup ev header CannotRead = header @ lit ''[dim italic]Cannot read file[/]''"

definition render_preview :: "env \<Rightarrow> node \<Rightarrow> bool \<Rightarrow> path option \<Rightarrow> error + ustr" where
  "render_preview ev fs hidden_shown sel =
     (case preview_of fs hidden_shown sel of
        Inl e \<Rightarrow> Inl e
      | Inr pv \<Rightarrow> Inr (markup ev (case sel of None \<Rightarrow> [] | Some p \<Rightarrow> header_of ev p) pv))"

section \<open>The panes: \<open>FileList.render_list\<close> and \<open>ParentPane.render_entries\<close>\<close>

text \<open>
  A line of the file list. \<open>is_dir()\<close> and \<open>is_symlink()\<close> stand outside any \<open>try\<close>: an
  error of either leaves \<open>render_list\<close>.
\<close>

definition list_line :: "env \<Rightarrow> node \<Rightarrow> int \<Rightarrow> nat \<times> path \<Rightarrow> error + ustr" where
  "list_line ev fs cursor ie =
     (let i = fst ie; entry = snd ie;
          name = escape ev (name_of entry)
      in case (case is_dir fs entry of
                 Inl e \<Rightarrow> Inl e
               | Inr True \<Rightarrow> Inr (lit ''[bold cyan]'' @ name @ lit ''/[/]'')
               | Inr False \<Rightarrow>
                   (case is_symlink fs entry of
                      Inl e \<Rightarrow> Inl e
                    | Inr True \<Rightarrow> Inr (lit ''[magenta]'' @ name @ lit ''@[/]'')
                    | Inr False \<Rightarrow>
                        if x_ok ev entry then Inr (lit ''[green]'' @ name @ lit ''*[/]'')
                        else Inr name)) of
           Inl e \<Rightarrow> Inl e
         | Inr display \<Rightarrow>
             (let prefix = (if int i = cursor then lit ''[reverse]'' else []);
                  suffix = (if int i = cursor then lit ''[/]'' else [])
              in Inr (prefix @ lit '' '' @ display @ lit ''  [dim]'' @ size_col ev entry
                        @ lit ''  '' @ mtime_col ev entry @ lit ''[/]'' @ suffix)))"

definition render_list :: "env \<Rightarrow> node \<Rightarrow> path \<Rightarrow> bool \<Rightarrow> int \<Rightarrow> error + ustr" where
  "render_list ev fs cur hidden_shown cursor =
     (case get_entries fs cur hidden_shown of
        Inl e \<Rightarrow> Inl e
      | Inr entries \<Rightarrow>
          if entries = [] then Inr (lit ''[dim italic]  Empty directory[/]'')
          else
            (case map_err (list_line ev fs cursor) (zip [0..<length entries] entries) of
               Inl e \<Rightarrow> Inl e
             | Inr ls \<Rightarrow> Inr (join_lines ls)))"

definition parent_line :: "env \<Rightarrow> node \<Rightarrow> path \<Rightarrow> path \<Rightarrow> error + ustr" where
  "parent_line ev fs cur entry =
     (let name = escape ev (name_of entry)
      in if entry = cur then Inr (lit ''[bold reverse] '' @ name @ lit ''/ [/]'')
         else
           (case is_dir fs entry of
              Inl e \<Rightarrow> Inl e
            | Inr True \<Rightarrow> Inr (lit ''[bold cyan] '' @ name @ lit ''/[/]'')
            | Inr False \<Rightarrow> Inr (lit '' '' @ name)))"

definition render_entries :: "env \<Rightarrow> node \<Rightarrow> path \<Rightarrow> bool \<Rightarrow> error + ustr" where
  "render_entries ev fs cur hidden_shown =
     (if parent cur = cur then Inr (str_path cur)
      else
        (case (case iterdir fs (parent cur) of
                 Inl e \<Rightarrow> Inl e
               | Inr children \<Rightarrow> sorted_by_key fs children) of
           Inl PermissionError \<Rightarrow> Inr (lit ''[red]Permission denied[/]'')
         | Inl e \<Rightarrow> Inl e
         | Inr sorted_entries \<Rightarrow>
             (let entries = (if \<not> hidden_shown then hidden_filter sorted_entries
                             else sorted_entries)
              in case map_err (parent_line ev fs cur) entries of
                   Inl e \<Rightarrow> Inl e
                 | Inr ls \<Rightarrow> Inr (join_lines ls))))"

section \<open>Application state: the reactive attributes of the widgets\<close>

text \<open>
  The reactive attributes of \<open>Explorer\<close> (\<open>current_dir\<close>, \<open>show_hidden\<close>), \<open>ParentPane\<close>
  (\<open>pp_\<close>), \<open>FileList\<close> (\<open>fl_\<close>), \<open>PreviewPane\<close> (\<open>pv_\<close>) and \<open>StatusBar\<close>. The status bar's
  text is an f-string of the current directory and the two counts; the state keeps these
  three values.
\<close>

record app =
  current_dir :: path
  show_hidden :: bool
  pp_current_dir :: path
  pp_show_hidden :: bool
  fl_current_dir :: path
  fl_cursor :: int
  fl_show_hidden :: bool
  pv_preview_path :: "path option"
  pv_show_hidden :: bool
  sb_status :: "(path \<times> nat \<times> nat) option"

text \<open>
  Assigning to a reactive attribute stores the value and, when the value has changed,
  runs the attribute's watcher at once. \<open>FileList.watch_current_dir\<close> and
  \<open>FileList.watch_show_hidden\<close> set the cursor to 0; the other watchers of the panes only
  repaint.
\<close>

definition set_fl_current_dir :: "app \<Rightarrow> path \<Rightarrow> app" where
  "set_fl_current_dir s d =
     (if fl_current_dir s = d then s else s\<lparr>fl_current_dir := d, fl_cursor := 0\<rparr>)"

definition set_fl_show_hidden :: "app \<Rightarrow> bool \<Rightarrow> app" where
  "set_fl_show_hidden s h =
     (if fl_show_hidden s = h then s else s\<lparr>fl_show_hidden := h, fl_cursor := 0\<rparr>)"

text \<open>\<open>FileList.selected_path\<close>.\<close>

definition selected_path :: "node \<Rightarrow> app \<Rightarrow> error + path option" where
  "selected_path fs s =
     (case get_entries fs (fl_current_dir s) (fl_show_hidden s) of
        Inl e \<Rightarrow> Inl e
      | Inr entries \<Rightarrow>
          if 0 \<le> fl_cursor s \<and> fl_cursor s < int (length entries)
          then Inr (Some (entries ! nat (fl_cursor s)))
          else Inr None)"

text \<open>
  A method of the application returns the exception it raised, if any, and the state of
  the widgets at that moment.
\<close>

definition update_preview :: "node \<Rightarrow> app \<Rightarrow> error option \<times> app" where
  "update_preview fs s =
     (let s1 = s\<lparr>pv_show_hidden := show_hidden s\<rparr>
      in case selected_path fs s1 of
           Inl e \<Rightarrow> (Some e, s1)
         | Inr sel \<Rightarrow> (None, s1\<lparr>pv_preview_path := sel\<rparr>))"

definition sync_all :: "node \<Rightarrow> app \<Rightarrow> error option \<times> app" where
  "sync_all fs s =
     (let s1 = s\<lparr>pp_current_dir := current_dir s\<rparr>;
          s2 = s1\<lparr>pp_show_hidden := show_hidden s\<rparr>;
          s3 = set_fl_current_dir s2 (current_dir s);
          s4 = set_fl_show_hidden s3 (show_hidden s)
      in case update_preview fs s4 of
           (Some e, s5) \<Rightarrow> (Some e, s5)
         | (None, s5) \<Rightarrow>
             (case get_entries fs (fl_current_dir s5) (fl_show_hidden s5) of
                Inl e \<Rightarrow> (Some e, s5)
              | Inr entries \<Rightarrow>
                  (case map_err (is_dir fs) entries of
                     Inl e \<Rightarrow> (Some e, s5)
                   | Inr ds \<Rightarrow>
                       (let count_dirs = length (filter (\<lambda>d. d) ds);
                            count_files = length entries - count_dirs
                        in (None, s5\<lparr>sb_status :=
                                      Some (current_dir s, count_dirs, count_files)\<rparr>)))))"

text \<open>Assigning to \<open>Explorer.current_dir\<close>: \<open>watch_current_dir\<close> runs \<open>_sync_all\<close>.\<close>

definition set_current_dir :: "node \<Rightarrow> app \<Rightarrow> path \<Rightarrow> error option \<times> app" where
  "set_current_dir fs s d =
     (if current_dir s = d then (None, s) else sync_all fs (s\<lparr>current_dir := d\<rparr>))"

text \<open>
  The state after \<open>on_mount\<close>: the application starts in the working directory with hidden
  files shown, the panes start at the home directory with the cursor at 0.
\<close>

definition on_mount :: "node \<Rightarrow> path \<Rightarrow> path \<Rightarrow> error option \<times> app" where
  "on_mount fs cwd home =
     sync_all fs
       \<lparr>current_dir = cwd, show_hidden = True,
        pp_current_dir = home, pp_show_hidden = True,
        fl_current_dir = home, fl_cursor = 0, fl_show_hidden = True,
        pv_preview_path = None, pv_show_hidden = True,
        sb_status = None\<rparr>"

section \<open>Navigation: the actions of \<open>Explorer\<close>\<close>

definition action_cursor_down :: "node \<Rightarrow> app \<Rightarrow> error option \<times> app" where
  "action_cursor_down fs s =
     (case get_entries fs (fl_current_dir s) (fl_show_hidden s) of
        Inl e \<Rightarrow> (Some e, s)
      | Inr entries \<Rightarrow>
          if fl_cursor s < int (length entries) - 1
          then update_preview fs (s\<lparr>fl_cursor := fl_cursor s + 1\<rparr>)
          else (None, s))"

definition action_cursor_up :: "node \<Rightarrow> app \<Rightarrow> error option \<times> app" where
  "action_cursor_up fs s =
     (if fl_cursor s > 0 then update_preview fs (s\<lparr>fl_cursor := fl_cursor s - 1\<rparr>)
      else (None, s))"

definition action_enter_dir :: "node \<Rightarrow> app \<Rightarrow> error option \<times> app" where
  "action_enter_dir fs s =
     (case selected_path fs s of
        Inl e \<Rightarrow> (Some e, s)
      | Inr None \<Rightarrow> (None, s)
      | Inr (Some selected) \<Rightarrow>
          (case is_dir fs selected of
             Inl e \<Rightarrow> (Some e, s)
           | Inr True \<Rightarrow> set_current_dir fs s selected
           | Inr False \<Rightarrow> (None, s)))"

text \<open>The loop of \<open>action_parent_dir\<close>: the first index at which \<open>x\<close> stands.\<close>

fun index_of :: "'a \<Rightarrow> 'a list \<Rightarrow> nat option" where
  "index_of x [] = None"
| "index_of x (y # ys) = (if y = x then Some 0 else map_option Suc (index_of x ys))"

definition action_parent_dir :: "node \<Rightarrow> app \<Rightarrow> error option \<times> app" where
  "action_parent_dir fs s =
     (let par = parent (current_dir s)
      in if par \<noteq> current_dir s then
           (let old = current_dir s
            in case set_current_dir fs s par of
                 (Some e, s1) \<Rightarrow> (Some e, s1)
               | (None, s1) \<Rightarrow>
                   (case get_entries fs (fl_current_dir s1) (fl_show_hidden s1) of
                      Inl e \<Rightarrow> (Some e, s1)
                    | Inr entries \<Rightarrow>
                        (case index_of old entries of
                           None \<Rightarrow> (None, s1)
                         | Some i \<Rightarrow> update_preview fs (s1\<lparr>fl_cursor := int i\<rparr>))))
         else (None, s))"

definition action_go_top :: "node \<Rightarrow> app \<Rightarrow> error option \<times> app" where
  "action_go_top fs s = update_preview fs (s\<lparr>fl_cursor := 0\<rparr>)"

definition action_go_bottom :: "node \<Rightarrow> app \<Rightarrow> error option \<times> app" where
  "action_go_bottom fs s =
     (case get_entries fs (fl_current_dir s) (fl_show_hidden s) of
        Inl e \<Rightarrow> (Some e, s)
      | Inr entries \<Rightarrow>
          if entries \<noteq> [] then update_preview fs (s\<lparr>fl_cursor := int (length entries) - 1\<rparr>)
          else (None, s))"

definition action_toggle_hidden :: "node \<Rightarrow> app \<Rightarrow> error option \<times> app" where
  "action_toggle_hidden fs s = sync_all fs (s\<lparr>show_hidden := \<not> show_hidden s\<rparr>)"

definition action_go_home :: "node \<Rightarrow> path \<Rightarrow> app \<Rightarrow> error option \<times> app" where
  "action_go_home fs home s = set_current_dir fs s home"

text \<open>\<open>Explorer._refresh_view\<close>, the resynchronization after a mutation.\<close>

definition refresh_view :: "node \<Rightarrow> app \<Rightarrow> error option \<times> app" where
  "refresh_view fs s =
     (case sync_all fs s of
        (Some e, s1) \<Rightarrow> (Some e, s1)
      | (None, s1) \<Rightarrow>
          (case get_entries fs (fl_current_dir s1) (fl_show_hidden s1) of
             Inl e \<Rightarrow> (Some e, s1)
           | Inr entries \<Rightarrow>
               update_preview fs
                 (if fl_cursor s1 \<ge> int (length entries)
                  then s1\<lparr>fl_cursor := max 0 (int (length entries) - 1)\<rparr>
                  else s1)))"

text \<open>
  The transitions of the navigation state machine, by the names of the specification
  (section 4.2), each with the action that the key binding runs.
\<close>

datatype transition =
    MoveDown
  | MoveUp
  | JumpTop
  | JumpBottom
  | Descend
  | Ascend
  | ToggleHidden
  | JumpHome path

fun step :: "node \<Rightarrow> transition \<Rightarrow> app \<Rightarrow> error option \<times> app" where
  "step fs MoveDown s = action_cursor_down fs s"
| "step fs MoveUp s = action_cursor_up fs s"
| "step fs JumpTop s = action_go_top fs s"
| "step fs JumpBottom s = action_go_bottom fs s"
| "step fs Descend s = action_enter_dir fs s"
| "step fs Ascend s = action_parent_dir fs s"
| "step fs ToggleHidden s = action_toggle_hidden fs s"
| "step fs (JumpHome home) s = action_go_home fs home s"

section \<open>Mutations: the dialog callbacks of create, rename and delete\<close>

text \<open>
  \<open>current_dir / name\<close>: the name is cut at the slashes, empty components and single dots
  are dropped, and a name that begins with a slash replaces the directory.
\<close>

fun split_slash :: "ustr \<Rightarrow> ustr \<Rightarrow> ustr list" where
  "split_slash cur [] = [cur]"
| "split_slash cur (c # cs) =
     (if c = 47 then cur # split_slash [] cs else split_slash (cur @ [c]) cs)"

definition path_parts :: "ustr \<Rightarrow> path" where
  "path_parts s = filter (\<lambda>c. c \<noteq> [] \<and> c \<noteq> [46]) (split_slash [] s)"

definition joinpath :: "path \<Rightarrow> ustr \<Rightarrow> path" where
  "joinpath p s = (if s \<noteq> [] \<and> hd s = 47 then path_parts s else p @ path_parts s)"

definition ends_with_slash :: "ustr \<Rightarrow> bool" where
  "ends_with_slash s = (s \<noteq> [] \<and> last s = 47)"

definition rstrip_slash :: "ustr \<Rightarrow> ustr" where
  "rstrip_slash s = rev (dropWhile (\<lambda>c. c = 47) (rev s))"

text \<open>
  The requests the callbacks make to the operating system: \<open>Path.mkdir(exist_ok=True)\<close>,
  \<open>Path.touch()\<close>, \<open>Path.rename(target)\<close>, \<open>shutil.rmtree(path)\<close> and \<open>Path.unlink()\<close>.
  What the operating system does with a request is a parameter \<open>sys\<close> of the callbacks:
  it rejects the request with an error, or yields the filesystem after it.
\<close>

datatype os_call =
    Mkdir path
  | Touch path
  | Rename path path
  | Rmtree path
  | Unlink path

type_synonym kernel = "os_call \<Rightarrow> node \<Rightarrow> error + node"

text \<open>
  A callback returns the exception it raised, if any, the state of the widgets and the
  filesystem. No callback has a \<open>try\<close>: an error of the request leaves the callback at
  once, before \<open>_refresh_view\<close>.
\<close>

definition mutate :: "kernel \<Rightarrow> os_call \<Rightarrow> node \<Rightarrow> app \<Rightarrow> error option \<times> app \<times> node" where
  "mutate sys call fs s =
     (case sys call fs of
        Inl e \<Rightarrow> (Some e, s, fs)
      | Inr fs' \<Rightarrow> (case refresh_view fs' s of (r, s') \<Rightarrow> (r, s', fs')))"

definition create_on_result ::
  "kernel \<Rightarrow> node \<Rightarrow> app \<Rightarrow> ustr option \<Rightarrow> error option \<times> app \<times> node" where
  "create_on_result sys fs s name =
     (case name of
        None \<Rightarrow> (None, s, fs)
      | Some nm \<Rightarrow>
          if nm \<noteq> [] then
            mutate sys
              (if ends_with_slash nm then Mkdir (joinpath (current_dir s) (rstrip_slash nm))
               else Touch (joinpath (current_dir s) nm))
              fs s
          else (None, s, fs))"

definition rename_on_result ::
  "kernel \<Rightarrow> node \<Rightarrow> app \<Rightarrow> path \<Rightarrow> ustr option \<Rightarrow> error option \<times> app \<times> node" where
  "rename_on_result sys fs s selected new_name =
     (case new_name of
        None \<Rightarrow> (None, s, fs)
      | Some nn \<Rightarrow>
          if nn \<noteq> [] \<and> nn \<noteq> name_of selected
          then mutate sys (Rename selected (joinpath (current_dir s) nn)) fs s
          else (None, s, fs))"

text \<open>
  The dispatch of the delete callback: \<open>rmtree\<close> when \<open>selected.is_dir()\<close>, else
  \<open>unlink\<close>; an \<open>is_dir()\<close> that raises leaves the callback before any request.
\<close>

definition delete_call :: "node \<Rightarrow> path \<Rightarrow> error + os_call" where
  "delete_call fs selected =
     (case is_dir fs selected of
        Inl e \<Rightarrow> Inl e
      | Inr True \<Rightarrow> Inr (Rmtree selected)
      | Inr False \<Rightarrow> Inr (Unlink selected))"

definition delete_on_result ::
  "kernel \<Rightarrow> node \<Rightarrow> app \<Rightarrow> path \<Rightarrow> bool \<Rightarrow> error option \<times> app \<times> node" where
  "delete_on_result sys fs s selected confirmed =
     (if confirmed then
        (case delete_call fs selected of
           Inl e \<Rightarrow> (Some e, s, fs)
         | Inr call \<Rightarrow> mutate sys call fs s)
      else (None, s, fs))"

section \<open>Auxiliary notions and example inputs\<close>

text \<open>\<open>is_dir()\<close> returns for every path of the list.\<close>

definition statable :: "node \<Rightarrow> path list \<Rightarrow> bool" where
  "statable fs ps = (\<forall>p\<in>set ps. \<exists>d. is_dir fs p = Inr d)"

text \<open>A line without a line boundary.\<close>

definition clean :: "ustr \<Rightarrow> bool" where
  "clean l = (\<forall>c\<in>set l. \<not> is_linebreak c)"

text \<open>The cursor stands on an entry of the listing \<open>L\<close>, or the listing is empty.\<close>

definition cursor_ok :: "app \<Rightarrow> path list \<Rightarrow> bool" where
  "cursor_ok s L = (0 \<le> fl_cursor s \<and> (L \<noteq> [] \<longrightarrow> fl_cursor s < int (length L)))"

text \<open>The file list shows the directory and the hidden flag of the application.\<close>

definition synced :: "app \<Rightarrow> bool" where
  "synced s = (fl_current_dir s = current_dir s \<and> fl_show_hidden s = show_hidden s)"

text \<open>
  The invariant of the navigation state on the filesystem \<open>fs\<close>: the file list is in
  step with the application, the current directory can be listed, and the cursor stands
  on an entry of the listing unless the listing is empty.
\<close>

definition consistent :: "node \<Rightarrow> app \<Rightarrow> bool" where
  "consistent fs s =
     (synced s \<and>
      (\<exists>L. get_entries fs (current_dir s) (show_hidden s) = Inr L \<and> cursor_ok s L))"

text \<open>
  The states the application reaches, with the filesystem at that moment: the state after
  \<open>on_mount\<close>; the state after a transition that returned; and the state after the
  resynchronization that follows a completed mutation, which runs on the filesystem
  \<open>fs'\<close> that the mutation (or anything else in the meantime) has left.
\<close>

inductive reach :: "node \<Rightarrow> app \<Rightarrow> bool" where
  mounted: "on_mount fs cwd home = (None, s) \<Longrightarrow> reach fs s"
| moved: "reach fs s \<Longrightarrow> step fs t s = (None, s') \<Longrightarrow> reach fs s'"
| mutated: "reach fs s \<Longrightarrow> refresh_view fs' s = (None, s') \<Longrightarrow> reach fs' s'"

text \<open>
  An environment for the examples: nothing to escape, no header, empty columns.
\<close>

definition plain_env :: env where
  "plain_env =
     \<lparr>escape = (\<lambda>s. s), header_of = (\<lambda>p. []), fmt_size = str_of_nat,
      size_col = (\<lambda>p. []), mtime_col = (\<lambda>p. []), x_ok = (\<lambda>p. False)\<rparr>"

text \<open>
  Example entries: a text file that may not be read; a file with a binary extension whose
  bytes are not UTF-8; a closed directory; a symbolic link to the directory \<open>/tmp/x/A\<close>.
\<close>

definition e_locked :: "ustr \<times> node" where
  "e_locked = (lit ''locked.txt'', File False [104, 105])"

definition e_png :: "ustr \<times> node" where
  "e_png = (lit ''pic.PNG'', File True [255, 254, 0])"

definition e_private :: "ustr \<times> node" where
  "e_private = (lit ''private'', Dir False [(lit ''secret'', File True [])])"

definition e_link :: "ustr \<times> node" where
  "e_link = (lit ''link'', Symlink (tmp_x @ [lit ''A'']))"

text \<open>
  A filesystem in which \<open>/tmp/x\<close> holds the file \<open>a.txt\<close> and the hidden symbolic link
  \<open>.lnk\<close> to \<open>/tmp/locked/x\<close>, and \<open>/tmp/locked\<close> is a closed directory: the link itself
  can be listed, and following it is denied.
\<close>

definition locked_fs :: node where
  "locked_fs =
     Dir True
       [(lit ''tmp'',
         Dir True
           [(lit ''x'',
             Dir True [(lit ''a.txt'', File True []),
                       (lit ''.lnk'', Symlink [lit ''tmp'', lit ''locked'', lit ''x''])]),
            (lit ''locked'', Dir False [(lit ''x'', File True [])])])]"

text \<open>A filesystem mounted read-only rejects every mutation.\<close>

definition readonly_sys :: kernel where
  "readonly_sys call fs = Inl OSError"

text \<open>The state after \<open>on_mount\<close> in \<open>/tmp/x\<close> of the scenario.\<close>

definition app_x :: app where
  "app_x =
     \<lparr>current_dir = tmp_x, show_hidden = True,
      pp_current_dir = tmp_x, pp_show_hidden = True,
      fl_current_dir = tmp_x, fl_cursor = 0, fl_show_hidden = True,
      pv_preview_path = Some (tmp_x @ [lit ''A'']), pv_show_hidden = True,
      sb_status = Some (tmp_x, 1, 2)\<rparr>"

section \<open>Properties of the entry catalog\<close>

lemma walk_errors:
  "walk fuel root follow cur p = Inl e \<Longrightarrow>
     e = PermissionError \<or> e = FileNotFoundError \<or> e = NotADirectoryError \<or> e = LoopError"
proof (induction fuel root follow cur p rule: walk.induct)
  case (1 fuel root follow cur)
  then show ?case by simp
next
  case (2 fuel root follow cur c cs)
  note w = "2.prems"
  show ?case
  proof (cases cur)
    case (File r bs)
    with w show ?thesis by simp
  next
    case (Symlink t)
    with w show ?thesis by simp
  next
    case (Dir r ents)
    note d = this
    show ?thesis
    proof (cases r)
      case False
      with w d show ?thesis by simp
    next
      case True
      then have nnr: "\<not> \<not> r" by simp
      have w1: "(case map_of ents c of
                   None \<Rightarrow> Inl FileNotFoundError
                 | Some (Symlink t) \<Rightarrow>
                     if cs = [] \<and> \<not> follow then Inr (Symlink t)
                     else (case fuel of
                             0 \<Rightarrow> Inl LoopError
                           | Suc n \<Rightarrow> walk n root follow root (t @ cs))
                 | Some nd \<Rightarrow> walk fuel root follow nd cs) = Inl e"
        using w d True by simp
      show ?thesis
      proof (cases "map_of ents c")
        case None
        with w1 show ?thesis by simp
      next
        case (Some nd)
        note nd = this
        show ?thesis
        proof (cases nd)
          case (File r2 bs)
          with w1 nd have "walk fuel root follow (File r2 bs) cs = Inl e" by simp
          then show ?thesis by (rule "2.IH"(1) [OF d nnr nd File])
        next
          case (Dir r2 ents2)
          with w1 nd have "walk fuel root follow (Dir r2 ents2) cs = Inl e" by simp
          then show ?thesis by (rule "2.IH"(2) [OF d nnr nd Dir])
        next
          case (Symlink t)
          note t = this
          show ?thesis
          proof (cases "cs = [] \<and> \<not> follow")
            case True
            with w1 nd t show ?thesis by simp
          next
            case False
            note nl = this
            show ?thesis
            proof (cases fuel)
              case 0
              with w1 nd t nl show ?thesis by auto
            next
              case (Suc n)
              with w1 nd t nl have "walk n root follow root (t @ cs) = Inl e" by auto
              then show ?thesis by (rule "2.IH"(3) [OF d nnr nd t nl Suc])
            qed
          qed
        qed
      qed
    qed
  qed
qed

lemma is_dir_raises: "is_dir fs p = Inl e \<Longrightarrow> e = PermissionError"
  using walk_errors [of 40 fs True fs p]
  by (auto simp: is_dir_def stat_def ignore_error_def split: sum.splits node.splits if_splits)

lemma map_err_total:
  "(\<And>x. x \<in> set xs \<Longrightarrow> f x = Inr (g x)) \<Longrightarrow> map_err f xs = Inr (map g xs)"
  by (induction xs) simp_all

lemma map_err_Inr:
  "map_err f xs = Inr ys \<Longrightarrow> length ys = length xs \<and> (\<forall>i<length xs. f (xs ! i) = Inr (ys ! i))"
proof (induction xs arbitrary: ys)
  case Nil
  then show ?case by simp
next
  case (Cons x xs)
  from Cons.prems obtain y zs where y: "f x = Inr y" "map_err f xs = Inr zs" "ys = y # zs"
    by (auto split: sum.splits)
  from Cons.IH [OF y(2)] y show ?case
    by (auto simp: nth_Cons split: nat.splits)
qed

lemma map_err_Inl:
  "map_err f xs = Inl e \<Longrightarrow> \<exists>x\<in>set xs. f x = Inl e"
  by (induction xs) (auto split: sum.splits)

lemma map_err_raises:
  "x \<in> set xs \<Longrightarrow> f x = Inl e \<Longrightarrow> \<exists>e'. map_err f xs = Inl e'"
  by (induction xs) (auto split: sum.splits)

lemma key_of_returns: "is_dir fs p = Inr d \<Longrightarrow> key_of fs p = Inr (entry_key fs p)"
  by (simp add: key_of_def entry_key_def)

lemma insort_key_map:
  "insort_key f (g x) (map g ys) = map g (insort_key (\<lambda>x. f (g x)) x ys)"
  by (induction ys) simp_all

lemma sort_key_map:
  "sort_key f (map g xs) = map g (sort_key (\<lambda>x. f (g x)) xs)"
  by (induction xs) (simp_all add: insort_key_map)

lemma sort_decorated:
  "map snd (sort_key fst (zip (map k xs) xs)) = sort_key k xs"
proof -
  have "zip (map k xs) xs = map (\<lambda>x. (k x, x)) xs"
    by (induction xs) simp_all
  then show ?thesis
    by (simp add: sort_key_map comp_def)
qed

lemma sorted_by_key_returns:
  assumes "statable fs ps"
  shows "sorted_by_key fs ps = Inr (sort_key (entry_key fs) ps)"
proof -
  have "map_err (key_of fs) ps = Inr (map (entry_key fs) ps)"
    using assms key_of_returns by (intro map_err_total) (auto simp: statable_def)
  then show ?thesis
    by (simp add: sorted_by_key_def sort_decorated)
qed

lemma sorted_by_key_denied:
  assumes "p \<in> set ps" and "is_dir fs p = Inl e"
  shows "sorted_by_key fs ps = Inl PermissionError"
proof -
  from assms have "key_of fs p = Inl e" by (simp add: key_of_def)
  from map_err_raises [of p ps "key_of fs" e, OF assms(1) this] obtain e' where
    e': "map_err (key_of fs) ps = Inl e'" by blast
  from map_err_Inl [OF this] obtain q where "key_of fs q = Inl e'" by blast
  then have "is_dir fs q = Inl e'"
    by (auto simp: key_of_def split: sum.splits)
  then have "e' = PermissionError" by (rule is_dir_raises)
  with e' show ?thesis by (simp add: sorted_by_key_def)
qed

lemma sorted_by_key_raises:
  assumes "\<not> statable fs ps"
  shows "sorted_by_key fs ps = Inl PermissionError"
proof -
  from assms obtain p where p: "p \<in> set ps" "\<forall>d. is_dir fs p \<noteq> Inr d"
    by (auto simp: statable_def)
  then obtain e where "is_dir fs p = Inl e" by (cases "is_dir fs p") auto
  from sorted_by_key_denied [OF p(1) this] show ?thesis .
qed

lemma sorted_hidden_filter:
  "sorted (map k es) \<Longrightarrow> sorted (map k (hidden_filter es))"
  by (simp add: hidden_filter_def sorted_filter)

lemma get_entries_of_iterdir:
  assumes "iterdir fs D = Inr cs"
  shows "get_entries fs D h =
           Inr (if statable fs cs
                then (if h then sort_key (entry_key fs) cs
                      else hidden_filter (sort_key (entry_key fs) cs))
                else [])"
proof (cases "statable fs cs")
  case True
  from sorted_by_key_returns [OF True] assms True show ?thesis
    by (simp add: get_entries_def)
next
  case False
  from sorted_by_key_raises [OF False] assms False show ?thesis
    by (simp add: get_entries_def)
qed

lemma iterdir_of_dir:
  "is_dir fs D = Inr True \<Longrightarrow>
     iterdir fs D = Inl PermissionError \<or> (\<exists>cs. iterdir fs D = Inr cs)"
  by (auto simp: is_dir_def iterdir_def split: sum.splits node.splits if_splits)

lemma get_entries_total:
  assumes "is_dir fs D = Inr True"
  shows "\<exists>L. get_entries fs D h = Inr L"
proof -
  from iterdir_of_dir [OF assms] show ?thesis
  proof
    assume "iterdir fs D = Inl PermissionError"
    then show ?thesis by (simp add: get_entries_def)
  next
    assume "\<exists>cs. iterdir fs D = Inr cs"
    then obtain cs where "iterdir fs D = Inr cs" by blast
    from get_entries_of_iterdir [OF this] show ?thesis by blast
  qed
qed

lemma get_entries_listed:
  assumes "get_entries fs D h = Inr L"
  shows "sorted (map (entry_key fs) L) \<and> (\<forall>p\<in>set L. \<exists>d. is_dir fs p = Inr d)"
proof (cases "iterdir fs D")
  case (Inl e)
  with assms have "L = []"
    by (cases e) (simp_all add: get_entries_def)
  then show ?thesis by simp
next
  case (Inr cs)
  show ?thesis
  proof (cases "statable fs cs")
    case True
    with assms Inr have L: "L = (if h then sort_key (entry_key fs) cs
                                 else hidden_filter (sort_key (entry_key fs) cs))"
      by (simp add: get_entries_of_iterdir)
    then have "set L \<subseteq> set cs" by (auto simp: hidden_filter_def)
    moreover from L have "sorted (map (entry_key fs) L)"
      by (simp add: sorted_hidden_filter)
    ultimately show ?thesis using True by (auto simp: statable_def)
  next
    case False
    with assms Inr have "L = []" by (simp add: get_entries_of_iterdir)
    then show ?thesis by simp
  qed
qed

lemma get_entries_key_sorted:
  "get_entries fs D h = Inr L \<Longrightarrow> sorted (map (entry_key fs) L)"
  using get_entries_listed by blast

lemma key_le_dirs_first:
  "entry_key fs a \<le> entry_key fs b \<Longrightarrow> is_dir fs b = Inr True \<Longrightarrow> is_dir fs a = Inr True"
  by (auto simp: entry_key_def less_eq_prod_def)

lemma key_le_names:
  "entry_key fs a \<le> entry_key fs b \<Longrightarrow> is_dir fs a = is_dir fs b \<Longrightarrow>
     str_lower (name_of a) \<le> str_lower (name_of b)"
  by (auto simp: entry_key_def less_eq_prod_def)

text \<open>
  Claim C2. For every directory \<open>D\<close> and hidden flag \<open>h\<close> the listing is returned; for
  each of its entries \<open>is_dir()\<close> returns, so each is a directory or a non-directory; and
  the listing is sorted by the key: of two entries, the later one being a directory makes
  the earlier one a directory (so every directory precedes every non-directory), and two
  entries of the same group stand in ascending order of their lowercased names.
\<close>

theorem get_entries_dirs_first_sorted:
  assumes "is_dir fs D = Inr True"
  shows "\<exists>L. get_entries fs D h = Inr L \<and>
           sorted (map (entry_key fs) L) \<and>
           (\<forall>p\<in>set L. is_dir fs p = Inr True \<or> is_dir fs p = Inr False) \<and>
           (\<forall>i j. i < j \<and> j < length L \<longrightarrow>
              (is_dir fs (L ! j) = Inr True \<longrightarrow> is_dir fs (L ! i) = Inr True) \<and>
              (is_dir fs (L ! i) = is_dir fs (L ! j) \<longrightarrow>
                 str_lower (name_of (L ! i)) \<le> str_lower (name_of (L ! j))))"
proof -
  from assms obtain L where L: "get_entries fs D h = Inr L"
    using get_entries_total by blast
  from get_entries_listed [OF L] have srt: "sorted (map (entry_key fs) L)"
    and st: "\<forall>p\<in>set L. \<exists>d. is_dir fs p = Inr d" by simp_all
  from st have st2: "\<forall>p\<in>set L. is_dir fs p = Inr True \<or> is_dir fs p = Inr False"
    by (metis (full_types))
  have "entry_key fs (L ! i) \<le> entry_key fs (L ! j)" if "i < j" "j < length L" for i j
    using srt that sorted_nth_mono [of "map (entry_key fs) L" i j] by simp
  then show ?thesis
    using L srt st2 key_le_dirs_first key_le_names by blast
qed

theorem get_entries_dirs_first_sorted_witness:
  "is_dir (scenario_fs [e_btxt, e_A, e_hidden]) tmp_x = Inr True \<and>
   (\<exists>L. get_entries (scenario_fs [e_btxt, e_A, e_hidden]) tmp_x True = Inr L \<and>
      length L = 3 \<and>
      sorted (map (entry_key (scenario_fs [e_btxt, e_A, e_hidden])) L))"
proof -
  have d: "is_dir (scenario_fs [e_btxt, e_A, e_hidden]) tmp_x = Inr True"
    by code_simp
  have n: "get_entries (scenario_fs [e_btxt, e_A, e_hidden]) tmp_x True =
             Inr [tmp_x @ [lit ''A''], tmp_x @ [lit ''.hidden''], tmp_x @ [lit ''b.txt'']]"
    by code_simp
  from get_entries_dirs_first_sorted [OF d, of True] n d show ?thesis
    by auto
qed





text \<open>
  Claim C9, as the specification states it, fails: with hidden files shown the listing
  of the scenario is not \<open>[A/, b.txt, .hidden]\<close>.
\<close>

theorem scenario_order_counterexample:
  "get_entries (scenario_fs [e_btxt, e_A, e_hidden]) tmp_x True \<noteq>
     Inr [tmp_x @ [lit ''A''], tmp_x @ [lit ''b.txt''], tmp_x @ [lit ''.hidden'']]"
  by code_simp

text \<open>
  Claim C9, amended. Whatever the order in which the operating system enumerates the
  three entries, the listing with hidden files shown is \<open>[A/, .hidden, b.txt]\<close>: the
  directory first, then the files by lowercased name, and the dot (code point 46)
  sorts before every letter. With hidden files off the listing is \<open>[A/, b.txt]\<close>.
\<close>

theorem scenario_order:
  assumes "ents \<in> {[e_btxt, e_A, e_hidden], [e_btxt, e_hidden, e_A],
                    [e_A, e_btxt, e_hidden], [e_A, e_hidden, e_btxt],
                    [e_hidden, e_btxt, e_A], [e_hidden, e_A, e_btxt]}"
  shows "get_entries (scenario_fs ents) tmp_x True =
           Inr [tmp_x @ [lit ''A''], tmp_x @ [lit ''.hidden''], tmp_x @ [lit ''b.txt'']] \<and>
         get_entries (scenario_fs ents) tmp_x False =
           Inr [tmp_x @ [lit ''A''], tmp_x @ [lit ''b.txt'']]"
proof -
  have "get_entries (scenario_fs [e_btxt, e_A, e_hidden]) tmp_x True =
           Inr [tmp_x @ [lit ''A''], tmp_x @ [lit ''.hidden''], tmp_x @ [lit ''b.txt'']]"
       "get_entries (scenario_fs [e_btxt, e_hidden, e_A]) tmp_x True =
           Inr [tmp_x @ [lit ''A''], tmp_x @ [lit ''.hidden''], tmp_x @ [lit ''b.txt'']]"
       "get_entries (scenario_fs [e_A, e_btxt, e_hidden]) tmp_x True =
           Inr [tmp_x @ [lit ''A''], tmp_x @ [lit ''.hidden''], tmp_x @ [lit ''b.txt'']]"
       "get_entries (scenario_fs [e_A, e_hidden, e_btxt]) tmp_x True =
           Inr [tmp_x @ [lit ''A''], tmp_x @ [lit ''.hidden''], tmp_x @ [lit ''b.txt'']]"
       "get_entries (scenario_fs [e_hidden, e_btxt, e_A]) tmp_x True =
           Inr [tmp_x @ [lit ''A''], tmp_x @ [lit ''.hidden''], tmp_x @ [lit ''b.txt'']]"
       "get_entries (scenario_fs [e_hidden, e_A, e_btxt]) tmp_x True =
           Inr [tmp_x @ [lit ''A''], tmp_x @ [lit ''.hidden''], tmp_x @ [lit ''b.txt'']]"
    by code_simp+
  moreover
  have "get_entries (scenario_fs [e_btxt, e_A, e_hidden]) tmp_x False =
           Inr [tmp_x @ [lit ''A''], tmp_x @ [lit ''b.txt'']]"
       "get_entries (scenario_fs [e_btxt, e_hidden, e_A]) tmp_x False =
           Inr [tmp_x @ [lit ''A''], tmp_x @ [lit ''b.txt'']]"
       "get_entries (scenario_fs [e_A, e_btxt, e_hidden]) tmp_x False =
           Inr [tmp_x @ [lit ''A''], tmp_x @ [lit ''b.txt'']]"
       "get_entries (scenario_fs [e_A, e_hidden, e_btxt]) tmp_x False =
           Inr [tmp_x @ [lit ''A''], tmp_x @ [lit ''b.txt'']]"
       "get_entries (scenario_fs [e_hidden, e_btxt, e_A]) tmp_x False =
           Inr [tmp_x @ [lit ''A''], tmp_x @ [lit ''b.txt'']]"
       "get_entries (scenario_fs [e_hidden, e_A, e_btxt]) tmp_x False =
           Inr [tmp_x @ [lit ''A''], tmp_x @ [lit ''b.txt'']]"
    by code_simp+
  ultimately show ?thesis
    using assms by auto
qed

theorem scenario_order_witness:
  "get_entries (scenario_fs [e_hidden, e_btxt, e_A]) tmp_x True =
     Inr [tmp_x @ [lit ''A''], tmp_x @ [lit ''.hidden''], tmp_x @ [lit ''b.txt'']] \<and>
   get_entries (scenario_fs [e_hidden, e_btxt, e_A]) tmp_x False =
     Inr [tmp_x @ [lit ''A''], tmp_x @ [lit ''b.txt'']]"
  using scenario_order [of "[e_hidden, e_btxt, e_A]"] by simp
section \<open>Properties of the preview generator\<close>

lemma clean_simps:
  "clean []" "clean (l @ [c]) = (clean l \<and> \<not> is_linebreak c)"
  by (auto simp: clean_def)

lemma splitlines_from_clean:
  "clean cur \<Longrightarrow> list_all clean (splitlines_from cur s)"
proof (induction cur s rule: splitlines_from.induct)
  case (1 cur)
  then show ?case by simp
next
  case (2 cur c)
  then show ?case by (simp add: clean_simps)
next
  case (3 cur c d cs)
  show ?case
  proof (cases "c = 13 \<and> d = 10")
    case True
    have "list_all clean (splitlines_from [] cs)"
      using "3.IH"(1) [OF True] by (simp add: clean_simps)
    moreover have "splitlines_from cur (c # d # cs) = cur # splitlines_from [] cs"
      using True by simp
    ultimately show ?thesis using "3.prems" by simp
  next
    case False
    note crlf = this
    show ?thesis
    proof (cases "is_linebreak c")
      case True
      have "list_all clean (splitlines_from [] (d # cs))"
        using "3.IH"(2) [OF crlf True] by (simp add: clean_simps)
      moreover have "splitlines_from cur (c # d # cs) = cur # splitlines_from [] (d # cs)"
        using crlf True by auto
      ultimately show ?thesis using "3.prems" by simp
    next
      case False
      have "clean (cur @ [c])" using "3.prems" False by (simp add: clean_simps)
      then have "list_all clean (splitlines_from (cur @ [c]) (d # cs))"
        by (rule "3.IH"(3) [OF crlf False])
      moreover have "splitlines_from cur (c # d # cs) = splitlines_from (cur @ [c]) (d # cs)"
        using crlf False by auto
      ultimately show ?thesis by simp
    qed
  qed
qed

lemma splitlines_no_break:
  "l \<in> set (splitlines s) \<Longrightarrow> c \<in> set l \<Longrightarrow> \<not> is_linebreak c"
  using splitlines_from_clean [of "[]" s]
  by (auto simp: splitlines_def clean_def list_all_iff)

lemma count_join_lines:
  "\<forall>l\<in>set ls. 10 \<notin> set l \<Longrightarrow>
     length (filter (\<lambda>c. c = 10) (join_lines ls)) = length ls - 1"
  by (induction ls rule: join_lines.induct) (auto simp: filter_empty_conv)

lemma kept_lines_no_newline:
  "l \<in> set (map (take m) (take n (splitlines s))) \<Longrightarrow> 10 \<notin> set l"
proof
  assume l: "l \<in> set (map (take m) (take n (splitlines s)))" and c: "10 \<in> set l"
  from l obtain k where k: "k \<in> set (take n (splitlines s))" "l = take m k" by auto
  then have "k \<in> set (splitlines s)" by (meson in_set_takeD)
  moreover from c k have "10 \<in> set k" by (meson in_set_takeD)
  ultimately have "\<not> is_linebreak 10" by (rule splitlines_no_break)
  then show False by (simp add: is_linebreak_def)
qed

lemma text_body_newlines:
  "length (filter (\<lambda>c. c = 10) (text_body raw)) < MAX_PREVIEW_LINES"
proof -
  let ?tr = "map (take MAX_LINE_LEN) (take MAX_PREVIEW_LINES (splitlines (decode_utf8 raw)))"
  have "\<forall>l\<in>set ?tr. 10 \<notin> set l"
    using kept_lines_no_newline by blast
  then have "length (filter (\<lambda>c. c = 10) (join_lines ?tr)) = length ?tr - 1"
    by (rule count_join_lines)
  moreover have "length ?tr \<le> MAX_PREVIEW_LINES" by simp
  moreover have "0 < MAX_PREVIEW_LINES" by (simp add: MAX_PREVIEW_LINES_def)
  ultimately show ?thesis by (simp add: text_body_def Let_def)
qed

lemma preview_of_text:
  assumes "stat fs p = Inr (File True bs)"
      and "length bs \<le> MAX_PREVIEW_BYTES"
      and "0 \<notin> set (take 1024 bs)"
      and "str_lower (suffix p) \<notin> set BINARY_EXTENSIONS"
  shows "preview_of fs h (Some p) = Inr (TextContent (text_body bs))"
  using assms
  by (simp add: preview_of_def exists_def is_dir_def read_bytes_def Let_def)

lemma preview_of_unreadable:
  assumes "stat fs p = Inr (File False bs)"
      and "length bs \<le> MAX_PREVIEW_BYTES"
      and "str_lower (suffix p) \<notin> set BINARY_EXTENSIONS"
  shows "preview_of fs h (Some p) = Inr CannotRead"
  using assms
  by (simp add: preview_of_def exists_def is_dir_def read_bytes_def Let_def)

text \<open>
  Claim C7, as the specification states it, fails. The empty file \<open>/tmp/x/b.txt\<close> meets
  every condition of the claim and its preview body is empty; and the file
  \<open>/tmp/x/locked.txt\<close>, which may not be read, meets them too and its preview is the
  "cannot read" sentinel, not its decoded bytes.
\<close>

theorem text_preview_counterexample:
  "stat (scenario_fs [e_btxt, e_locked]) (tmp_x @ [lit ''b.txt'']) = Inr (File True []) \<and>
   str_lower (suffix (tmp_x @ [lit ''b.txt''])) \<notin> set BINARY_EXTENSIONS \<and>
   preview_of (scenario_fs [e_btxt, e_locked]) True (Some (tmp_x @ [lit ''b.txt''])) =
     Inr (TextContent []) \<and>
   stat (scenario_fs [e_btxt, e_locked]) (tmp_x @ [lit ''locked.txt'']) =
     Inr (File False [104, 105]) \<and>
   str_lower (suffix (tmp_x @ [lit ''locked.txt''])) \<notin> set BINARY_EXTENSIONS \<and>
   preview_of (scenario_fs [e_btxt, e_locked]) True (Some (tmp_x @ [lit ''locked.txt''])) =
     Inr CannotRead"
proof -
  have a: "stat (scenario_fs [e_btxt, e_locked]) (tmp_x @ [lit ''b.txt'']) = Inr (File True [])"
    by code_simp
  have b: "str_lower (suffix (tmp_x @ [lit ''b.txt''])) \<notin> set BINARY_EXTENSIONS"
    by code_simp
  have c: "stat (scenario_fs [e_btxt, e_locked]) (tmp_x @ [lit ''locked.txt'']) =
             Inr (File False [104, 105])"
    by code_simp
  have d: "str_lower (suffix (tmp_x @ [lit ''locked.txt''])) \<notin> set BINARY_EXTENSIONS"
    by code_simp
  have e: "text_body [] = []"
    by (simp add: text_body_def splitlines_def Let_def)
  have "preview_of (scenario_fs [e_btxt, e_locked]) True (Some (tmp_x @ [lit ''b.txt''])) =
          Inr (TextContent (text_body []))"
    using a b by (intro preview_of_text) simp_all
  moreover
  have "preview_of (scenario_fs [e_btxt, e_locked]) True (Some (tmp_x @ [lit ''locked.txt''])) =
          Inr CannotRead"
    using c d by (intro preview_of_unreadable [where bs = "[104, 105]"])
                 (simp_all add: MAX_PREVIEW_BYTES_def)
  ultimately show ?thesis
    using a b c d e by simp
qed

text \<open>
  Claim C7, amended. For every existing regular file that may be read, whose size is at
  most 64 KiB, whose first 1 KiB holds no NUL byte and whose lowercased extension is not in
  the binary set, the preview is the text body: the bytes decoded as UTF-8 with
  replacement, split into lines, at most 80 lines kept, each cut to at most 200
  characters, the kept lines joined by line feeds (and, in the string the pane shows,
  escaped and put behind the header). No kept line holds a line feed, so the body has
  fewer than 80 of them. The body may be empty.
\<close>

theorem text_preview:
  assumes "stat fs p = Inr (File True bs)"
      and "length bs \<le> MAX_PREVIEW_BYTES"
      and "0 \<notin> set (take 1024 bs)"
      and "str_lower (suffix p) \<notin> set BINARY_EXTENSIONS"
  shows "\<exists>kept.
           kept = map (take 200) (take 80 (splitlines (decode_utf8 bs))) \<and>
           preview_of fs h (Some p) = Inr (TextContent (join_lines kept)) \<and>
           render_preview ev fs h (Some p) = Inr (header_of ev p @ escape ev (join_lines kept)) \<and>
           length kept \<le> 80 \<and>
           (\<forall>l\<in>set kept. length l \<le> 200 \<and> 10 \<notin> set l) \<and>
           length (filter (\<lambda>c. c = 10) (join_lines kept)) < 80"
proof -
  let ?kept = "map (take 200) (take 80 (splitlines (decode_utf8 bs)))"
  have tb: "text_body bs = join_lines ?kept"
    by (simp add: text_body_def Let_def MAX_PREVIEW_LINES_def MAX_LINE_LEN_def)
  have pv: "preview_of fs h (Some p) = Inr (TextContent (join_lines ?kept))"
    using preview_of_text [OF assms] tb by simp
  then have rp: "render_preview ev fs h (Some p) =
                   Inr (header_of ev p @ escape ev (join_lines ?kept))"
    by (simp add: render_preview_def)
  have ln: "length ?kept \<le> 80" by simp
  have ea: "\<forall>l\<in>set ?kept. length l \<le> 200 \<and> 10 \<notin> set l"
    using kept_lines_no_newline [of _ 200 80 "decode_utf8 bs"] by auto
  have nl: "length (filter (\<lambda>c. c = 10) (join_lines ?kept)) < 80"
    using text_body_newlines [of bs] tb by (simp add: MAX_PREVIEW_LINES_def)
  from pv rp ln ea nl show ?thesis by blast
qed

theorem text_preview_witness:
  "stat (scenario_fs [e_hidden, (lit ''n.txt'', File True [104, 105, 10, 195, 169, 255])])
        (tmp_x @ [lit ''n.txt'']) = Inr (File True [104, 105, 10, 195, 169, 255]) \<and>
   preview_of (scenario_fs [e_hidden, (lit ''n.txt'', File True [104, 105, 10, 195, 169, 255])])
        True (Some (tmp_x @ [lit ''n.txt''])) =
     Inr (TextContent [104, 105, 10, 233, 65533])"
proof -
  let ?fs = "scenario_fs [e_hidden, (lit ''n.txt'', File True [104, 105, 10, 195, 169, 255])]"
  let ?p = "tmp_x @ [lit ''n.txt'']"
  have a: "stat ?fs ?p = Inr (File True [104, 105, 10, 195, 169, 255])"
    by code_simp
  have b: "length [104, 105, 10, 195, 169, 255 :: byte] \<le> MAX_PREVIEW_BYTES"
    by (simp add: MAX_PREVIEW_BYTES_def)
  have c: "0 \<notin> set (take 1024 [104, 105, 10, 195, 169, 255 :: byte])"
    by simp
  have d: "str_lower (suffix ?p) \<notin> set BINARY_EXTENSIONS"
    by code_simp
  have e: "join_lines (map (take 200) (take 80
             (splitlines (decode_utf8 [104, 105, 10, 195, 169, 255])))) =
           [104, 105, 10, 233, 65533]"
    by (simp add: decode_step_def is_cont_def replacement_def splitlines_def is_linebreak_def)
  from text_preview [OF a b c d, of True plain_env] a e show ?thesis
    by simp
qed

lemma preview_of_binary:
  assumes "exists fs p = Inr True" "is_dir fs p = Inr False"
      and "str_lower (suffix p) \<in> set BINARY_EXTENSIONS"
  shows "preview_of fs h (Some p) = Inr (BinaryExt (suffix p))"
  using assms by (simp add: preview_of_def)

text \<open>
  Claim C8. For every path that exists and is not a directory (\<open>exists()\<close> returns
  \<open>True\<close> and \<open>is_dir()\<close> returns \<open>False\<close>) and whose lowercased
  extension is in the binary set, the preview is the binary-file sentinel with the
  extension. The result is stated without the file's bytes or its read permission:
  whatever they are, it is never the "cannot read" sentinel, the NUL-byte sentinel or a
  text body.
\<close>

theorem binary_extension_preview:
  assumes "exists fs p = Inr True"
      and "is_dir fs p = Inr False"
      and "str_lower (suffix p) \<in> set BINARY_EXTENSIONS"
  shows "preview_of fs h (Some p) = Inr (BinaryExt (suffix p)) \<and>
         render_preview ev fs h (Some p) =
           Inr (header_of ev p @ lit ''[dim italic]Binary file ('' @ escape ev (suffix p)
                  @ lit '')[/]'')"
  using preview_of_binary [OF assms, of h]
  by (simp add: render_preview_def)

theorem binary_extension_preview_witness:
  "exists (scenario_fs [e_png, e_A]) (tmp_x @ [lit ''pic.PNG'']) = Inr True \<and>
   is_dir (scenario_fs [e_png, e_A]) (tmp_x @ [lit ''pic.PNG'']) = Inr False \<and>
   stat (scenario_fs [e_png, e_A]) (tmp_x @ [lit ''pic.PNG'']) = Inr (File True [255, 254, 0]) \<and>
   preview_of (scenario_fs [e_png, e_A]) True (Some (tmp_x @ [lit ''pic.PNG''])) =
     Inr (BinaryExt (lit ''.PNG'')) \<and>
   render_preview plain_env (scenario_fs [e_png, e_A]) True (Some (tmp_x @ [lit ''pic.PNG''])) =
     Inr (lit ''[dim italic]Binary file (.PNG)[/]'')"
proof -
  let ?fs = "scenario_fs [e_png, e_A]"
  let ?p = "tmp_x @ [lit ''pic.PNG'']"
  have a: "exists ?fs ?p = Inr True" by code_simp
  have b: "is_dir ?fs ?p = Inr False" by code_simp
  have c: "str_lower (suffix ?p) \<in> set BINARY_EXTENSIONS" by code_simp
  have d: "stat ?fs ?p = Inr (File True [255, 254, 0])" by code_simp
  have e: "suffix ?p = lit ''.PNG''" by code_simp
  from binary_extension_preview [OF a b c, of True plain_env] a b d e show ?thesis
    by (simp add: plain_env_def lit_def)
qed

section \<open>Properties of the panes\<close>

text \<open>
  Claim C5 holds of the parent pane and of the preview pane, and fails for the file
  list: when the current directory is closed, \<open>iterdir\<close> raises
  \<open>PermissionError\<close>, \<open>get_entries\<close> returns the empty list, and \<open>render_list\<close> shows the
  text of an empty directory. The preview of the same directory, and the parent pane of
  any of its children, show the "permission denied" text.
\<close>

theorem unreadable_directory_rendering:
  assumes "stat fs cur = Inr (Dir False ents)"
  shows "iterdir fs cur = Inl PermissionError \<and>
         get_entries fs cur h = Inr [] \<and>
         render_list ev fs cur h c = Inr (lit ''[dim italic]  Empty directory[/]'') \<and>
         render_preview ev fs h (Some cur) =
           Inr (header_of ev cur @ lit ''[red]Permission denied[/]'') \<and>
         render_entries ev fs (cur @ [n]) h = Inr (lit ''[red]Permission denied[/]'')"
proof -
  have it: "iterdir fs cur = Inl PermissionError"
    using assms by (simp add: iterdir_def)
  then have ge: "get_entries fs cur h = Inr []"
    by (simp add: get_entries_def)
  then have rl: "render_list ev fs cur h c = Inr (lit ''[dim italic]  Empty directory[/]'')"
    by (simp add: render_list_def)
  have rp: "render_preview ev fs h (Some cur) =
              Inr (header_of ev cur @ lit ''[red]Permission denied[/]'')"
    using assms it by (simp add: render_preview_def preview_of_def exists_def is_dir_def)
  have re: "render_entries ev fs (cur @ [n]) h = Inr (lit ''[red]Permission denied[/]'')"
    using it by (simp add: render_entries_def parent_def)
  from it ge rl rp re show ?thesis by simp
qed

theorem unreadable_directory_rendering_witness:
  "stat (scenario_fs [e_private]) (tmp_x @ [lit ''private'']) =
     Inr (Dir False [(lit ''secret'', File True [])]) \<and>
   render_list plain_env (scenario_fs [e_private]) (tmp_x @ [lit ''private'']) True 0 =
     Inr (lit ''[dim italic]  Empty directory[/]'') \<and>
   render_list plain_env (scenario_fs [e_A]) (tmp_x @ [lit ''A'']) True 0 =
     Inr (lit ''[dim italic]  Empty directory[/]'') \<and>
   render_preview plain_env (scenario_fs [e_private]) True (Some (tmp_x @ [lit ''private''])) =
     Inr (lit ''[red]Permission denied[/]'')"
proof -
  let ?fs = "scenario_fs [e_private]"
  let ?p = "tmp_x @ [lit ''private'']"
  have a: "stat ?fs ?p = Inr (Dir False [(lit ''secret'', File True [])])"
    by code_simp
  have b: "get_entries (scenario_fs [e_A]) (tmp_x @ [lit ''A'']) True = Inr []"
    by code_simp
  have c: "render_list plain_env (scenario_fs [e_A]) (tmp_x @ [lit ''A'']) True 0 =
             Inr (lit ''[dim italic]  Empty directory[/]'')"
    using b by (simp add: render_list_def)
  from unreadable_directory_rendering [OF a, of True plain_env 0 "[]"] a c show ?thesis
    by (simp add: plain_env_def)
qed

section \<open>Properties of the navigation state\<close>

lemma update_preview_ok:
  assumes "get_entries fs (fl_current_dir s) (fl_show_hidden s) = Inr L"
  shows "update_preview fs s =
           (None, s\<lparr>pv_show_hidden := show_hidden s,
                    pv_preview_path :=
                      (if 0 \<le> fl_cursor s \<and> fl_cursor s < int (length L)
                       then Some (L ! nat (fl_cursor s)) else None)\<rparr>)"
  using assms by (simp add: update_preview_def selected_path_def Let_def)

lemma selected_path_ok:
  assumes "get_entries fs (fl_current_dir s) (fl_show_hidden s) = Inr L"
  shows "selected_path fs s =
           Inr (if 0 \<le> fl_cursor s \<and> fl_cursor s < int (length L)
                then Some (L ! nat (fl_cursor s)) else None)"
  using assms by (simp add: selected_path_def)

lemma flags_of_listing:
  assumes "get_entries fs D h = Inr L"
  shows "map_err (is_dir fs) L = Inr (map (\<lambda>p. is_dir fs p = Inr True) L)"
proof (rule map_err_total)
  fix p assume "p \<in> set L"
  with get_entries_listed [OF assms] obtain d where "is_dir fs p = Inr d" by blast
  then show "is_dir fs p = Inr (is_dir fs p = Inr True)" by simp
qed

lemma sync_all_ok:
  assumes "get_entries fs (current_dir s) (show_hidden s) = Inr L"
  shows "\<exists>s'. sync_all fs s = (None, s') \<and>
           current_dir s' = current_dir s \<and> show_hidden s' = show_hidden s \<and>
           fl_current_dir s' = current_dir s \<and> fl_show_hidden s' = show_hidden s \<and>
           fl_cursor s' =
             (if fl_current_dir s = current_dir s \<and> fl_show_hidden s = show_hidden s
              then fl_cursor s else 0) \<and>
           pv_preview_path s' =
             (if 0 \<le> fl_cursor s' \<and> fl_cursor s' < int (length L)
              then Some (L ! nat (fl_cursor s')) else None)"
proof -
  define s4 where
    "s4 = set_fl_show_hidden
            (set_fl_current_dir
               (s\<lparr>pp_current_dir := current_dir s, pp_show_hidden := show_hidden s\<rparr>)
               (current_dir s))
            (show_hidden s)"
  have f: "current_dir s4 = current_dir s" "show_hidden s4 = show_hidden s"
          "fl_current_dir s4 = current_dir s" "fl_show_hidden s4 = show_hidden s"
          "fl_cursor s4 =
             (if fl_current_dir s = current_dir s \<and> fl_show_hidden s = show_hidden s
              then fl_cursor s else 0)"
    by (simp_all add: s4_def set_fl_show_hidden_def set_fl_current_dir_def)
  have g: "get_entries fs (fl_current_dir s4) (fl_show_hidden s4) = Inr L"
    using assms f by simp
  have sa: "sync_all fs s =
          (case update_preview fs s4 of
             (Some e, s5) \<Rightarrow> (Some e, s5)
           | (None, s5) \<Rightarrow>
               (case get_entries fs (fl_current_dir s5) (fl_show_hidden s5) of
                  Inl e \<Rightarrow> (Some e, s5)
                | Inr entries \<Rightarrow>
                    (case map_err (is_dir fs) entries of
                       Inl e \<Rightarrow> (Some e, s5)
                     | Inr ds \<Rightarrow>
                         (None, s5\<lparr>sb_status :=
                            Some (current_dir s, length (filter (\<lambda>d. d) ds),
                                  length entries - length (filter (\<lambda>d. d) ds))\<rparr>))))"
    unfolding sync_all_def Let_def s4_def ..
  show ?thesis
    unfolding sa using f g by (simp add: update_preview_ok [OF g] flags_of_listing [OF g])
qed

lemma refresh_view_ok:
  assumes nonneg: "0 \<le> fl_cursor s"
      and listing: "get_entries fs (current_dir s) (show_hidden s) = Inr L"
  shows "\<exists>s'. refresh_view fs s = (None, s') \<and>
           current_dir s' = current_dir s \<and> show_hidden s' = show_hidden s \<and>
           fl_current_dir s' = current_dir s \<and> fl_show_hidden s' = show_hidden s \<and>
           cursor_ok s' L \<and>
           (L = [] \<longrightarrow> fl_cursor s' = 0) \<and>
           pv_preview_path s' = (if L = [] then None else Some (L ! nat (fl_cursor s')))"
proof -
  from sync_all_ok [OF listing] obtain s1 where s1:
    "sync_all fs s = (None, s1)"
    "current_dir s1 = current_dir s" "show_hidden s1 = show_hidden s"
    "fl_current_dir s1 = current_dir s" "fl_show_hidden s1 = show_hidden s"
    "fl_cursor s1 =
       (if fl_current_dir s = current_dir s \<and> fl_show_hidden s = show_hidden s
        then fl_cursor s else 0)"
    by blast
  define s2 where
    "s2 = (if fl_cursor s1 \<ge> int (length L)
           then s1\<lparr>fl_cursor := max 0 (int (length L) - 1)\<rparr> else s1)"
  have g1: "get_entries fs (fl_current_dir s1) (fl_show_hidden s1) = Inr L"
    using listing s1 by simp
  have rv: "refresh_view fs s = update_preview fs s2"
    using s1(1) g1 by (simp add: refresh_view_def s2_def)
  have c1: "0 \<le> fl_cursor s1" using s1(6) nonneg by simp
  have f2: "current_dir s2 = current_dir s" "show_hidden s2 = show_hidden s"
           "fl_current_dir s2 = current_dir s" "fl_show_hidden s2 = show_hidden s"
    using s1 by (simp_all add: s2_def)
  have c2: "0 \<le> fl_cursor s2" "L \<noteq> [] \<longrightarrow> fl_cursor s2 < int (length L)"
           "L = [] \<longrightarrow> fl_cursor s2 = 0"
    using c1 by (auto simp: s2_def)
  have g2: "get_entries fs (fl_current_dir s2) (fl_show_hidden s2) = Inr L"
    using listing f2 by simp
  show ?thesis
    using rv f2 c2 by (auto simp: update_preview_ok [OF g2] cursor_ok_def)
qed

lemma resync_cursor_in_range:
  assumes "0 \<le> fl_cursor s"
      and "get_entries fs (current_dir s) (show_hidden s) = Inr L"
  shows "\<exists>s'. refresh_view fs s = (None, s') \<and>
           get_entries fs (fl_current_dir s') (fl_show_hidden s') = Inr L \<and>
           (L \<noteq> [] \<longrightarrow> 0 \<le> fl_cursor s' \<and> fl_cursor s' < int (length L)) \<and>
           (selected_path fs s' = Inr None \<longleftrightarrow> L = []) \<and>
           selected_path fs s' = Inr (pv_preview_path s')"
proof -
  from refresh_view_ok [OF assms] obtain s' where s':
    "refresh_view fs s = (None, s')"
    "fl_current_dir s' = current_dir s" "fl_show_hidden s' = show_hidden s"
    "cursor_ok s' L"
    "pv_preview_path s' = (if L = [] then None else Some (L ! nat (fl_cursor s')))"
    by blast
  have g: "get_entries fs (fl_current_dir s') (fl_show_hidden s') = Inr L"
    using assms(2) s' by simp
  have sp: "selected_path fs s' = Inr (pv_preview_path s')"
    using s'(4,5) by (auto simp: selected_path_ok [OF g] cursor_ok_def)
  have "selected_path fs s' = Inr None \<longleftrightarrow> L = []"
    using sp s'(5) by simp
  with s' g sp show ?thesis
    by (auto simp: cursor_ok_def)
qed


lemma sync_all_fails:
  assumes "get_entries fs (current_dir s) (show_hidden s) = Inl e"
  shows "fst (sync_all fs s) = Some e"
proof -
  define s4 where
    "s4 = set_fl_show_hidden
            (set_fl_current_dir
               (s\<lparr>pp_current_dir := current_dir s, pp_show_hidden := show_hidden s\<rparr>)
               (current_dir s))
            (show_hidden s)"
  have f: "fl_current_dir s4 = current_dir s" "fl_show_hidden s4 = show_hidden s"
    by (simp_all add: s4_def set_fl_show_hidden_def set_fl_current_dir_def)
  have up: "fst (update_preview fs s4) = Some e"
    using assms f by (simp add: update_preview_def selected_path_def Let_def)
  have sa: "sync_all fs s =
          (case update_preview fs s4 of
             (Some e, s5) \<Rightarrow> (Some e, s5)
           | (None, s5) \<Rightarrow>
               (case get_entries fs (fl_current_dir s5) (fl_show_hidden s5) of
                  Inl e \<Rightarrow> (Some e, s5)
                | Inr entries \<Rightarrow>
                    (case map_err (is_dir fs) entries of
                       Inl e \<Rightarrow> (Some e, s5)
                     | Inr ds \<Rightarrow>
                         (None, s5\<lparr>sb_status :=
                            Some (current_dir s, length (filter (\<lambda>d. d) ds),
                                  length entries - length (filter (\<lambda>d. d) ds))\<rparr>))))"
    unfolding sync_all_def Let_def s4_def ..
  show ?thesis
    unfolding sa using up by (cases "update_preview fs s4") auto
qed

lemma sync_all_returns:
  assumes "sync_all fs s = (None, t)"
  shows "\<exists>L. get_entries fs (current_dir s) (show_hidden s) = Inr L"
proof (cases "get_entries fs (current_dir s) (show_hidden s)")
  case (Inl e)
  from sync_all_fails [OF this] assms show ?thesis by simp
next
  case (Inr L)
  then show ?thesis by blast
qed

lemma sync_all_consistent:
  assumes "sync_all fs s = (None, t)"
      and "0 \<le> fl_cursor s"
      and "synced s \<longrightarrow>
             (\<exists>L. get_entries fs (current_dir s) (show_hidden s) = Inr L \<and> cursor_ok s L)"
  shows "consistent fs t \<and> current_dir t = current_dir s \<and> show_hidden t = show_hidden s"
proof -
  from sync_all_returns [OF assms(1)] obtain L where
    L: "get_entries fs (current_dir s) (show_hidden s) = Inr L" by blast
  from sync_all_ok [OF L] assms(1) have t:
    "current_dir t = current_dir s" "show_hidden t = show_hidden s"
    "fl_current_dir t = current_dir s" "fl_show_hidden t = show_hidden s"
    "fl_cursor t =
       (if fl_current_dir s = current_dir s \<and> fl_show_hidden s = show_hidden s
        then fl_cursor s else 0)"
    by auto
  have "cursor_ok t L"
  proof (cases "synced s")
    case True
    with assms(3) L have "cursor_ok s L" by auto
    with True t(5) show ?thesis by (simp add: cursor_ok_def synced_def)
  next
    case False
    with t(5) show ?thesis by (auto simp: cursor_ok_def synced_def)
  qed
  with L t show ?thesis
    by (auto simp: consistent_def synced_def)
qed

lemma consistentD:
  assumes "consistent fs s"
  obtains L where "get_entries fs (fl_current_dir s) (fl_show_hidden s) = Inr L"
    and "get_entries fs (current_dir s) (show_hidden s) = Inr L"
    and "cursor_ok s L" and "synced s"
  using assms by (auto simp: consistent_def synced_def)

lemma update_preview_consistent:
  assumes "consistent fs s"
      and "get_entries fs (current_dir s) (show_hidden s) = Inr L"
      and "0 \<le> c" and "L \<noteq> [] \<longrightarrow> c < int (length L)"
  shows "\<exists>t. update_preview fs (s\<lparr>fl_cursor := c\<rparr>) = (None, t) \<and> consistent fs t \<and>
           fl_cursor t = c \<and> current_dir t = current_dir s \<and> show_hidden t = show_hidden s"
proof -
  have sy: "synced s" using assms(1) by (simp add: consistent_def)
  have g: "get_entries fs (fl_current_dir (s\<lparr>fl_cursor := c\<rparr>))
             (fl_show_hidden (s\<lparr>fl_cursor := c\<rparr>)) = Inr L"
    using assms(2) sy by (simp add: synced_def)
  show ?thesis
    using assms(2,3,4) sy
    by (simp add: update_preview_ok [OF g] consistent_def synced_def cursor_ok_def)
qed

lemma set_current_dir_consistent:
  assumes "consistent fs s" and "set_current_dir fs s d = (None, t)"
  shows "consistent fs t \<and> current_dir t = d \<and> show_hidden t = show_hidden s \<and>
         (d \<noteq> current_dir s \<longrightarrow> fl_cursor t = 0)"
proof (cases "current_dir s = d")
  case True
  with assms show ?thesis by (simp add: set_current_dir_def)
next
  case False
  let ?s = "s\<lparr>current_dir := d\<rparr>"
  have sa: "sync_all fs ?s = (None, t)"
    using assms(2) False by (simp add: set_current_dir_def)
  have ns: "\<not> synced ?s"
    using assms(1) False by (auto simp: consistent_def synced_def)
  have nn: "0 \<le> fl_cursor ?s"
    using assms(1) by (auto simp: consistent_def cursor_ok_def)
  from sync_all_consistent [OF sa nn] ns have c: "consistent fs t"
    "current_dir t = d" "show_hidden t = show_hidden s" by simp_all
  from sync_all_returns [OF sa] obtain L where
    L: "get_entries fs (current_dir ?s) (show_hidden ?s) = Inr L" by blast
  from sync_all_ok [OF L] sa have "fl_cursor t = 0"
    using assms(1) False by (auto simp: consistent_def synced_def)
  with c show ?thesis by simp
qed

lemma index_of_Some:
  "index_of x xs = Some i \<Longrightarrow> i < length xs \<and> xs ! i = x \<and> (\<forall>j<i. xs ! j \<noteq> x)"
proof (induction xs arbitrary: i)
  case Nil
  then show ?case by simp
next
  case (Cons y ys)
  show ?case
  proof (cases "y = x")
    case True
    with Cons.prems show ?thesis by simp
  next
    case False
    with Cons.prems obtain k where k: "index_of x ys = Some k" "i = Suc k" by auto
    from Cons.IH [OF k(1)] have "k < length ys" "ys ! k = x" "\<forall>j<k. ys ! j \<noteq> x" by auto
    with k False show ?thesis by (auto simp: nth_Cons split: nat.splits)
  qed
qed

lemma index_of_None: "index_of x xs = None \<longleftrightarrow> x \<notin> set xs"
  by (induction xs) auto

lemma step_consistent:
  assumes c: "consistent fs s" and st: "step fs tr s = (None, t)"
  shows "consistent fs t"
proof -
  from c obtain L where gfl: "get_entries fs (fl_current_dir s) (fl_show_hidden s) = Inr L"
    and g: "get_entries fs (current_dir s) (show_hidden s) = Inr L"
    and ok: "cursor_ok s L" and sy: "synced s"
    by (rule consistentD)
  show ?thesis
  proof (cases tr)
    case MoveDown
    show ?thesis
    proof (cases "fl_cursor s < int (length L) - 1")
      case True
      with update_preview_consistent [OF c g, of "fl_cursor s + 1"] ok st MoveDown gfl
      show ?thesis by (auto simp: action_cursor_down_def cursor_ok_def)
    next
      case False
      with st MoveDown gfl c show ?thesis by (simp add: action_cursor_down_def)
    qed
  next
    case MoveUp
    show ?thesis
    proof (cases "fl_cursor s > 0")
      case True
      with update_preview_consistent [OF c g, of "fl_cursor s - 1"] ok st MoveUp
      show ?thesis by (auto simp: action_cursor_up_def cursor_ok_def)
    next
      case False
      with st MoveUp c show ?thesis by (simp add: action_cursor_up_def)
    qed
  next
    case JumpTop
    with update_preview_consistent [OF c g, of 0] st
    show ?thesis by (auto simp: action_go_top_def)
  next
    case JumpBottom
    show ?thesis
    proof (cases "L = []")
      case True
      with st JumpBottom gfl c show ?thesis by (simp add: action_go_bottom_def)
    next
      case False
      with update_preview_consistent [OF c g, of "int (length L) - 1"] st JumpBottom gfl
      show ?thesis by (auto simp: action_go_bottom_def)
    qed
  next
    case Descend
    have sp: "selected_path fs s =
                Inr (if 0 \<le> fl_cursor s \<and> fl_cursor s < int (length L)
                     then Some (L ! nat (fl_cursor s)) else None)"
      by (rule selected_path_ok [OF gfl])
    show ?thesis
    proof (cases "0 \<le> fl_cursor s \<and> fl_cursor s < int (length L)")
      case False
      with st Descend sp have "t = s"
        by (simp add: action_enter_dir_def)
      with c show ?thesis by simp
    next
      case True
      note inr = this
      show ?thesis
      proof (cases "is_dir fs (L ! nat (fl_cursor s))")
        case (Inl e)
        with st Descend sp inr show ?thesis by (simp add: action_enter_dir_def)
      next
        case (Inr d)
        show ?thesis
        proof (cases d)
          case True
          with st Descend sp inr Inr
          have "set_current_dir fs s (L ! nat (fl_cursor s)) = (None, t)"
            by (simp add: action_enter_dir_def)
          from set_current_dir_consistent [OF c this] show ?thesis by simp
        next
          case False
          with st Descend sp inr Inr have "t = s"
            by (simp add: action_enter_dir_def)
          with c show ?thesis by simp
        qed
      qed
    qed
  next
    case Ascend
    show ?thesis
    proof (cases "parent (current_dir s) = current_dir s")
      case True
      with st Ascend c show ?thesis by (simp add: action_parent_dir_def)
    next
      case False
      obtain r s1 where r: "set_current_dir fs s (parent (current_dir s)) = (r, s1)"
        by (cases "set_current_dir fs s (parent (current_dir s))")
      show ?thesis
      proof (cases r)
        case (Some e)
        with st Ascend False r show ?thesis by (simp add: action_parent_dir_def Let_def)
      next
        case None
        with r have r1: "set_current_dir fs s (parent (current_dir s)) = (None, s1)" by simp
        from set_current_dir_consistent [OF c r1] False have c1: "consistent fs s1"
          and z: "fl_cursor s1 = 0" by auto
        from c1 obtain L1 where
          gfl1: "get_entries fs (fl_current_dir s1) (fl_show_hidden s1) = Inr L1"
          and g1: "get_entries fs (current_dir s1) (show_hidden s1) = Inr L1"
          by (rule consistentD)
        show ?thesis
        proof (cases "index_of (current_dir s) L1")
          case None
          with st Ascend False r1 gfl1 have "t = s1"
            by (simp add: action_parent_dir_def Let_def)
          with c1 show ?thesis by simp
        next
          case (Some i)
          from index_of_Some [OF Some] have i: "i < length L1" by simp
          from st Ascend False r1 gfl1 Some
          have "update_preview fs (s1\<lparr>fl_cursor := int i\<rparr>) = (None, t)"
            by (simp add: action_parent_dir_def Let_def)
          with update_preview_consistent [OF c1 g1, of "int i"] i show ?thesis by auto
        qed
      qed
    qed
  next
    case ToggleHidden
    let ?s = "s\<lparr>show_hidden := \<not> show_hidden s\<rparr>"
    have sa: "sync_all fs ?s = (None, t)"
      using st ToggleHidden by (simp add: action_toggle_hidden_def)
    have ns: "\<not> synced ?s" using sy by (auto simp: synced_def)
    have nn: "0 \<le> fl_cursor ?s" using ok by (simp add: cursor_ok_def)
    from sync_all_consistent [OF sa nn] ns show ?thesis by simp
  next
    case (JumpHome home)
    with st have "set_current_dir fs s home = (None, t)"
      by (simp add: action_go_home_def)
    from set_current_dir_consistent [OF c this] show ?thesis by simp
  qed
qed

lemma refresh_view_consistent:
  assumes "0 \<le> fl_cursor s" and "refresh_view fs s = (None, t)"
  shows "consistent fs t"
proof -
  obtain r s1 where r: "sync_all fs s = (r, s1)" by (cases "sync_all fs s")
  with assms(2) have "r = None"
    by (cases r) (simp_all add: refresh_view_def)
  with r sync_all_returns obtain L where
    L: "get_entries fs (current_dir s) (show_hidden s) = Inr L" by blast
  from refresh_view_ok [OF assms(1) L] assms(2) L show ?thesis
    by (auto simp: consistent_def synced_def)
qed

lemma on_mount_consistent:
  assumes "on_mount fs cwd home = (None, s)"
  shows "consistent fs s"
proof -
  let ?s0 = "\<lparr>current_dir = cwd, show_hidden = True,
              pp_current_dir = home, pp_show_hidden = True,
              fl_current_dir = home, fl_cursor = 0, fl_show_hidden = True,
              pv_preview_path = None, pv_show_hidden = True,
              sb_status = None\<rparr>"
  have sa: "sync_all fs ?s0 = (None, s)"
    using assms by (simp add: on_mount_def)
  from sync_all_returns [OF sa] obtain L where
    L: "get_entries fs (current_dir ?s0) (show_hidden ?s0) = Inr L" by blast
  from sync_all_ok [OF L] sa L show ?thesis
    by (auto simp: consistent_def synced_def cursor_ok_def)
qed

lemma reach_consistent: "reach fs s \<Longrightarrow> consistent fs s"
proof (induction rule: reach.induct)
  case (mounted fs cwd home s)
  then show ?case by (rule on_mount_consistent)
next
  case (moved fs s tr t)
  then show ?case by (blast intro: step_consistent)
next
  case (mutated fs s fs2 t)
  from mutated.IH have "0 \<le> fl_cursor s"
    by (auto simp: consistent_def cursor_ok_def)
  from refresh_view_consistent [OF this mutated.hyps(2)] show ?case .
qed

text \<open>
  Claim C1. In every state the application reaches (after \<open>on_mount\<close>, after every
  navigation transition, and after the resynchronization \<open>_refresh_view\<close> that follows a
  completed mutation, whatever the filesystem then holds), the file list shows the
  listing \<open>L\<close> of the current directory, the cursor index satisfies
  \<open>0 \<le> cursor < len L\<close> whenever \<open>L\<close> is not empty, and \<open>selected_path\<close> returns \<open>None\<close>
  if and only if \<open>L\<close> is empty. A resynchronization from a reached state on a
  filesystem \<open>fs2\<close> completes whenever the current directory can be listed there, and
  its result is again such a state.
\<close>

theorem cursor_in_range_after_resync:
  assumes "reach fs s"
  shows "\<exists>L. get_entries fs (fl_current_dir s) (fl_show_hidden s) = Inr L \<and>
           fl_current_dir s = current_dir s \<and>
           (L \<noteq> [] \<longrightarrow> 0 \<le> fl_cursor s \<and> fl_cursor s < int (length L)) \<and>
           (selected_path fs s = Inr None \<longleftrightarrow> L = []) \<and>
           (\<forall>fs2 L2. get_entries fs2 (current_dir s) (show_hidden s) = Inr L2 \<longrightarrow>
              (\<exists>t. refresh_view fs2 s = (None, t) \<and> reach fs2 t \<and>
                 (L2 \<noteq> [] \<longrightarrow> 0 \<le> fl_cursor t \<and> fl_cursor t < int (length L2)) \<and>
                 (selected_path fs2 t = Inr None \<longleftrightarrow> L2 = [])))"
proof -
  from reach_consistent [OF assms] obtain L where
    gfl: "get_entries fs (fl_current_dir s) (fl_show_hidden s) = Inr L"
    and ok: "cursor_ok s L" and sy: "synced s"
    by (rule consistentD)
  have sel: "selected_path fs s = Inr None \<longleftrightarrow> L = []"
    using ok by (auto simp: selected_path_ok [OF gfl] cursor_ok_def)
  have nn: "0 \<le> fl_cursor s" using ok by (simp add: cursor_ok_def)
  have after: "\<exists>t. refresh_view fs2 s = (None, t) \<and> reach fs2 t \<and>
                 (L2 \<noteq> [] \<longrightarrow> 0 \<le> fl_cursor t \<and> fl_cursor t < int (length L2)) \<and>
                 (selected_path fs2 t = Inr None \<longleftrightarrow> L2 = [])"
    if "get_entries fs2 (current_dir s) (show_hidden s) = Inr L2" for fs2 L2
  proof -
    from resync_cursor_in_range [OF nn that] obtain t where t:
      "refresh_view fs2 s = (None, t)"
      "L2 \<noteq> [] \<longrightarrow> 0 \<le> fl_cursor t \<and> fl_cursor t < int (length L2)"
      "selected_path fs2 t = Inr None \<longleftrightarrow> L2 = []"
      by blast
    from reach.mutated [OF assms t(1)] t show ?thesis by blast
  qed
  from gfl ok sy sel after show ?thesis
    by (auto simp: cursor_ok_def synced_def)
qed

theorem cursor_in_range_after_resync_witness:
  "reach (scenario_fs [e_btxt, e_A, e_hidden])
     (app_x\<lparr>fl_cursor := 2, pv_preview_path := Some (tmp_x @ [lit ''b.txt''])\<rparr>) \<and>
   get_entries (scenario_fs [e_A, e_hidden]) tmp_x True =
     Inr [tmp_x @ [lit ''A''], tmp_x @ [lit ''.hidden'']] \<and>
   (\<exists>t. refresh_view (scenario_fs [e_A, e_hidden])
           (app_x\<lparr>fl_cursor := 2, pv_preview_path := Some (tmp_x @ [lit ''b.txt''])\<rparr>) =
           (None, t) \<and>
        reach (scenario_fs [e_A, e_hidden]) t \<and> fl_cursor t = 1 \<and>
        selected_path (scenario_fs [e_A, e_hidden]) t = Inr (Some (tmp_x @ [lit ''.hidden''])))"
proof -
  let ?fs = "scenario_fs [e_btxt, e_A, e_hidden]"
  let ?fs2 = "scenario_fs [e_A, e_hidden]"
  let ?s = "app_x\<lparr>fl_cursor := 2, pv_preview_path := Some (tmp_x @ [lit ''b.txt''])\<rparr>"
  have m: "on_mount ?fs tmp_x tmp_x = (None, app_x)"
    by code_simp
  have b: "step ?fs JumpBottom app_x = (None, ?s)"
    by code_simp
  have r: "reach ?fs ?s"
    using reach.moved [OF reach.mounted [OF m] b] .
  have g: "get_entries ?fs2 (current_dir ?s) (show_hidden ?s) =
             Inr [tmp_x @ [lit ''A''], tmp_x @ [lit ''.hidden'']]"
    by code_simp
  have c: "fl_cursor (snd (refresh_view ?fs2 ?s)) = 1"
    by code_simp
  have p: "pv_preview_path (snd (refresh_view ?fs2 ?s)) = Some (tmp_x @ [lit ''.hidden''])"
    by code_simp
  have g2: "get_entries ?fs2 tmp_x True = Inr [tmp_x @ [lit ''A''], tmp_x @ [lit ''.hidden'']]"
    by code_simp
  from cursor_in_range_after_resync [OF r] g obtain t where t:
    "refresh_view ?fs2 ?s = (None, t)" "reach ?fs2 t"
    by blast
  from resync_cursor_in_range [of ?s ?fs2, OF _ g] t(1)
  have "selected_path ?fs2 t = Inr (pv_preview_path t)"
    by (auto simp: app_x_def)
  with t c p r g2 show ?thesis by auto
qed

lemma update_preview_current_dir:
  "update_preview fs s = (r, t) \<Longrightarrow>
     current_dir t = current_dir s \<and> fl_current_dir t = fl_current_dir s \<and>
     fl_show_hidden t = fl_show_hidden s \<and> fl_cursor t = fl_cursor s"
  by (auto simp: update_preview_def Let_def split: sum.splits)

lemma sync_all_current_dir:
  assumes "sync_all fs s = (r, t)"
  shows "current_dir t = current_dir s"
proof -
  define s4 where
    "s4 = set_fl_show_hidden
            (set_fl_current_dir
               (s\<lparr>pp_current_dir := current_dir s, pp_show_hidden := show_hidden s\<rparr>)
               (current_dir s))
            (show_hidden s)"
  have f: "current_dir s4 = current_dir s"
    by (simp add: s4_def set_fl_show_hidden_def set_fl_current_dir_def)
  have sa: "sync_all fs s =
          (case update_preview fs s4 of
             (Some e, s5) \<Rightarrow> (Some e, s5)
           | (None, s5) \<Rightarrow>
               (case get_entries fs (fl_current_dir s5) (fl_show_hidden s5) of
                  Inl e \<Rightarrow> (Some e, s5)
                | Inr entries \<Rightarrow>
                    (case map_err (is_dir fs) entries of
                       Inl e \<Rightarrow> (Some e, s5)
                     | Inr ds \<Rightarrow>
                         (None, s5\<lparr>sb_status :=
                            Some (current_dir s, length (filter (\<lambda>d. d) ds),
                                  length entries - length (filter (\<lambda>d. d) ds))\<rparr>))))"
    unfolding sync_all_def Let_def s4_def ..
  obtain q s5 where u: "update_preview fs s4 = (q, s5)"
    by (cases "update_preview fs s4")
  from update_preview_current_dir [OF u] f have "current_dir s5 = current_dir s" by simp
  with assms u show ?thesis
    unfolding sa by (auto split: option.splits sum.splits)
qed

lemma ascend_current_dir:
  assumes "parent (current_dir s) \<noteq> current_dir s"
      and "action_parent_dir fs s = (r, t)"
  shows "current_dir t = parent (current_dir s)"
proof -
  let ?par = "parent (current_dir s)"
  obtain q s1 where q: "sync_all fs (s\<lparr>current_dir := ?par\<rparr>) = (q, s1)"
    by (cases "sync_all fs (s\<lparr>current_dir := ?par\<rparr>)")
  from sync_all_current_dir [OF q] have c1: "current_dir s1 = ?par" by simp
  have sc: "set_current_dir fs s ?par = (q, s1)"
    using assms(1) q by (simp add: set_current_dir_def)
  show ?thesis
  proof (cases q)
    case (Some e)
    with assms sc c1 show ?thesis by (simp add: action_parent_dir_def Let_def)
  next
    case None
    note qn = this
    show ?thesis
    proof (cases "get_entries fs (fl_current_dir s1) (fl_show_hidden s1)")
      case (Inl e)
      with assms sc c1 qn show ?thesis by (simp add: action_parent_dir_def Let_def)
    next
      case (Inr entries)
      note en = this
      show ?thesis
      proof (cases "index_of (current_dir s) entries")
        case None
        with assms sc c1 qn en show ?thesis by (simp add: action_parent_dir_def Let_def)
      next
        case (Some i)
        with assms sc qn en
        have "update_preview fs (s1\<lparr>fl_cursor := int i\<rparr>) = (r, t)"
          by (simp add: action_parent_dir_def Let_def)
        from update_preview_current_dir [OF this] c1 show ?thesis by simp
      qed
    qed
  qed
qed

lemma ascend_listed:
  assumes sy: "fl_current_dir s = current_dir s"
      and np: "parent (current_dir s) \<noteq> current_dir s"
      and L: "get_entries fs (parent (current_dir s)) (show_hidden s) = Inr L"
  shows "\<exists>t. action_parent_dir fs s = (None, t) \<and>
           current_dir t = parent (current_dir s) \<and>
           fl_current_dir t = parent (current_dir s) \<and>
           fl_show_hidden t = show_hidden s \<and>
           (case index_of (current_dir s) L of
              Some i \<Rightarrow> fl_cursor t = int i \<and> pv_preview_path t = Some (current_dir s)
            | None \<Rightarrow> fl_cursor t = 0)"
proof -
  let ?par = "parent (current_dir s)"
  let ?s = "s\<lparr>current_dir := ?par\<rparr>"
  have L1: "get_entries fs (current_dir ?s) (show_hidden ?s) = Inr L"
    using L by simp
  from sync_all_ok [OF L1] sy np obtain s1 where s1:
    "sync_all fs ?s = (None, s1)" "current_dir s1 = ?par"
    "fl_current_dir s1 = ?par" "fl_show_hidden s1 = show_hidden s" "fl_cursor s1 = 0"
    by auto
  have sc: "set_current_dir fs s ?par = (None, s1)"
    using np s1(1) by (simp add: set_current_dir_def)
  have g1: "get_entries fs (fl_current_dir s1) (fl_show_hidden s1) = Inr L"
    using L s1 by simp
  show ?thesis
  proof (cases "index_of (current_dir s) L")
    case None
    with np sc g1 s1 show ?thesis by (simp add: action_parent_dir_def Let_def)
  next
    case (Some i)
    from index_of_Some [OF Some] have i: "i < length L" "L ! i = current_dir s" by auto
    have g2: "get_entries fs (fl_current_dir (s1\<lparr>fl_cursor := int i\<rparr>))
                (fl_show_hidden (s1\<lparr>fl_cursor := int i\<rparr>)) = Inr L"
      using g1 by simp
    from np sc g1 Some
    have "action_parent_dir fs s = update_preview fs (s1\<lparr>fl_cursor := int i\<rparr>)"
      by (simp add: action_parent_dir_def Let_def)
    with Some i s1 show ?thesis
      by (simp add: update_preview_ok [OF g2])
  qed
qed

text \<open>
  Claim C4. \<open>action_parent_dir\<close> leaves the state as it is exactly when the parent path
  equals the current path. Otherwise, from a state whose file list shows the current
  directory, and when the parent can be listed as \<open>L\<close>, it makes the parent the current
  directory of the application and of the file list, and the cursor is the first index
  of the directory just left in \<open>L\<close> when it stands there (the preview then holds that
  directory), and 0 when it does not.
\<close>

theorem ascend_places_cursor:
  assumes "fl_current_dir s = current_dir s"
  shows "(action_parent_dir fs s = (None, s) \<longleftrightarrow> parent (current_dir s) = current_dir s) \<and>
         (parent (current_dir s) \<noteq> current_dir s \<longrightarrow>
            (\<forall>L. get_entries fs (parent (current_dir s)) (show_hidden s) = Inr L \<longrightarrow>
               (\<exists>t. action_parent_dir fs s = (None, t) \<and>
                  current_dir t = parent (current_dir s) \<and>
                  fl_current_dir t = parent (current_dir s) \<and>
                  (current_dir s \<in> set L \<longrightarrow>
                     0 \<le> fl_cursor t \<and> nat (fl_cursor t) < length L \<and>
                     L ! nat (fl_cursor t) = current_dir s \<and>
                     (\<forall>j<nat (fl_cursor t). L ! j \<noteq> current_dir s) \<and>
                     pv_preview_path t = Some (current_dir s)) \<and>
                  (current_dir s \<notin> set L \<longrightarrow> fl_cursor t = 0))))"
proof -
  have noop: "action_parent_dir fs s = (None, s) \<longleftrightarrow> parent (current_dir s) = current_dir s"
  proof
    assume a: "action_parent_dir fs s = (None, s)"
    show "parent (current_dir s) = current_dir s"
    proof (rule ccontr)
      assume "parent (current_dir s) \<noteq> current_dir s"
      from ascend_current_dir [OF this a] this show False by simp
    qed
  next
    assume "parent (current_dir s) = current_dir s"
    then show "action_parent_dir fs s = (None, s)"
      by (simp add: action_parent_dir_def)
  qed
  have moved: "\<exists>t. action_parent_dir fs s = (None, t) \<and>
                  current_dir t = parent (current_dir s) \<and>
                  fl_current_dir t = parent (current_dir s) \<and>
                  (current_dir s \<in> set L \<longrightarrow>
                     0 \<le> fl_cursor t \<and> nat (fl_cursor t) < length L \<and>
                     L ! nat (fl_cursor t) = current_dir s \<and>
                     (\<forall>j<nat (fl_cursor t). L ! j \<noteq> current_dir s) \<and>
                     pv_preview_path t = Some (current_dir s)) \<and>
                  (current_dir s \<notin> set L \<longrightarrow> fl_cursor t = 0)"
    if np: "parent (current_dir s) \<noteq> current_dir s"
      and L: "get_entries fs (parent (current_dir s)) (show_hidden s) = Inr L" for L
  proof -
    from ascend_listed [OF assms np L] obtain t where t:
      "action_parent_dir fs s = (None, t)"
      "current_dir t = parent (current_dir s)"
      "fl_current_dir t = parent (current_dir s)"
      "case index_of (current_dir s) L of
         Some i \<Rightarrow> fl_cursor t = int i \<and> pv_preview_path t = Some (current_dir s)
       | None \<Rightarrow> fl_cursor t = 0"
      by blast
    show ?thesis
    proof (cases "index_of (current_dir s) L")
      case None
      with t index_of_None [of "current_dir s" L] show ?thesis by auto
    next
      case (Some i)
      from index_of_Some [OF Some] have "i < length L" "L ! i = current_dir s"
        "\<forall>j<i. L ! j \<noteq> current_dir s" by auto
      moreover from Some index_of_None [of "current_dir s" L] have "current_dir s \<in> set L"
        by auto
      ultimately show ?thesis using t Some by auto
    qed
  qed
  from noop moved show ?thesis by blast
qed

theorem ascend_places_cursor_witness:
  "fl_current_dir app_x = current_dir app_x \<and>
   parent (current_dir app_x) \<noteq> current_dir app_x \<and>
   get_entries
     (Dir True [(lit ''tmp'', Dir True [(lit ''x'', Dir True []), (lit ''n.txt'', File True []),
                                        (lit ''a'', Dir True [])])])
     (parent (current_dir app_x)) (show_hidden app_x) =
     Inr [[lit ''tmp'', lit ''a''], [lit ''tmp'', lit ''x''], [lit ''tmp'', lit ''n.txt'']] \<and>
   (\<exists>t. action_parent_dir
          (Dir True [(lit ''tmp'', Dir True [(lit ''x'', Dir True []), (lit ''n.txt'', File True []),
                                             (lit ''a'', Dir True [])])]) app_x = (None, t) \<and>
        current_dir t = [lit ''tmp''] \<and> fl_cursor t = 1 \<and>
        pv_preview_path t = Some tmp_x)"
proof -
  let ?fs = "Dir True [(lit ''tmp'', Dir True [(lit ''x'', Dir True []), (lit ''n.txt'', File True []),
                                              (lit ''a'', Dir True [])])]"
  let ?L = "[[lit ''tmp'', lit ''a''], [lit ''tmp'', lit ''x''], [lit ''tmp'', lit ''n.txt'']]"
  have a: "fl_current_dir app_x = current_dir app_x" by (simp add: app_x_def)
  have b: "parent (current_dir app_x) \<noteq> current_dir app_x" by code_simp
  have c: "get_entries ?fs (parent (current_dir app_x)) (show_hidden app_x) = Inr ?L"
    by code_simp
  have d: "current_dir app_x \<in> set ?L" by code_simp
  have e: "parent (current_dir app_x) = [lit ''tmp'']" "current_dir app_x = tmp_x"
    by code_simp+
  have f: "fl_cursor (snd (action_parent_dir ?fs app_x)) = 1" by code_simp
  from ascend_places_cursor [OF a, of ?fs] b c d obtain t where
    "action_parent_dir ?fs app_x = (None, t)" "current_dir t = parent (current_dir app_x)"
    "pv_preview_path t = Some (current_dir app_x)"
    by blast
  with a b c e f show ?thesis by auto
qed

section \<open>Properties of the mutations\<close>

lemma mutate_rejected:
  "sys call fs = Inl e \<Longrightarrow> mutate sys call fs s = (Some e, s, fs)"
  by (simp add: mutate_def)

text \<open>
  Claim C6, as the specification states it, fails: the callbacks have no handler, so a
  rejected request is not captured but leaves the callback as an exception. On a
  filesystem that rejects every mutation, creating \<open>new\<close>, renaming \<open>b.txt\<close> to \<open>A\<close> and
  deleting \<open>b.txt\<close> each raise \<open>OSError\<close>.
\<close>

theorem mutation_failure_counterexample:
  "fst (create_on_result readonly_sys (scenario_fs [e_btxt, e_A, e_hidden]) app_x
          (Some (lit ''new''))) = Some OSError \<and>
   fst (rename_on_result readonly_sys (scenario_fs [e_btxt, e_A, e_hidden]) app_x
          (tmp_x @ [lit ''b.txt'']) (Some (lit ''A''))) = Some OSError \<and>
   fst (delete_on_result readonly_sys (scenario_fs [e_btxt, e_A, e_hidden]) app_x
          (tmp_x @ [lit ''b.txt'']) True) = Some OSError"
  by code_simp

text \<open>
  Claim C6, amended. When the operating system rejects the request of a create, rename
  or delete callback with an error, the callback raises that error (nothing catches it
  and nothing notifies the user); the state of the widgets and the filesystem are left
  as they were, and no resynchronization runs. The same holds when the \<open>is_dir()\<close> of
  the delete callback raises, before any request.
\<close>

theorem mutation_failure_propagates:
  "(nm \<noteq> [] \<and>
    sys (if ends_with_slash nm then Mkdir (joinpath (current_dir s) (rstrip_slash nm))
         else Touch (joinpath (current_dir s) nm)) fs = Inl e \<longrightarrow>
      create_on_result sys fs s (Some nm) = (Some e, s, fs)) \<and>
   (nn \<noteq> [] \<and> nn \<noteq> name_of selected \<and>
    sys (Rename selected (joinpath (current_dir s) nn)) fs = Inl e \<longrightarrow>
      rename_on_result sys fs s selected (Some nn) = (Some e, s, fs)) \<and>
   (delete_call fs selected = Inr call \<and> sys call fs = Inl e \<longrightarrow>
      delete_on_result sys fs s selected True = (Some e, s, fs)) \<and>
   (delete_call fs selected = Inl e \<longrightarrow>
      delete_on_result sys fs s selected True = (Some e, s, fs))"
  by (simp add: create_on_result_def rename_on_result_def delete_on_result_def
        mutate_rejected)

theorem mutation_failure_propagates_witness:
  "create_on_result readonly_sys (scenario_fs [e_btxt, e_A, e_hidden]) app_x
     (Some (lit ''new'')) = (Some OSError, app_x, scenario_fs [e_btxt, e_A, e_hidden]) \<and>
   rename_on_result readonly_sys (scenario_fs [e_btxt, e_A, e_hidden]) app_x
     (tmp_x @ [lit ''b.txt'']) (Some (lit ''A'')) =
     (Some OSError, app_x, scenario_fs [e_btxt, e_A, e_hidden]) \<and>
   delete_call (scenario_fs [e_btxt, e_A, e_hidden]) (tmp_x @ [lit ''b.txt'']) =
     Inr (Unlink (tmp_x @ [lit ''b.txt''])) \<and>
   delete_on_result readonly_sys (scenario_fs [e_btxt, e_A, e_hidden]) app_x
     (tmp_x @ [lit ''b.txt'']) True =
     (Some OSError, app_x, scenario_fs [e_btxt, e_A, e_hidden]) \<and>
   delete_call locked_fs (tmp_x @ [lit ''.lnk'']) = Inl PermissionError \<and>
   delete_on_result readonly_sys locked_fs app_x (tmp_x @ [lit ''.lnk'']) True =
     (Some PermissionError, app_x, locked_fs)"
proof -
  let ?fs = "scenario_fs [e_btxt, e_A, e_hidden]"
  have d: "delete_call ?fs (tmp_x @ [lit ''b.txt'']) = Inr (Unlink (tmp_x @ [lit ''b.txt'']))"
    by code_simp
  have l: "delete_call locked_fs (tmp_x @ [lit ''.lnk'']) = Inl PermissionError"
    by code_simp
  have n: "lit ''new'' \<noteq> []" "lit ''A'' \<noteq> []" "lit ''A'' \<noteq> name_of (tmp_x @ [lit ''b.txt''])"
    by (simp_all add: lit_def name_of_def)
  from mutation_failure_propagates
         [where nm = "lit ''new''" and sys = readonly_sys and s = app_x and fs = ?fs
            and e = OSError and nn = "lit ''A''" and selected = "tmp_x @ [lit ''b.txt'']"
            and call = "Unlink (tmp_x @ [lit ''b.txt''])"]
       mutation_failure_propagates
         [where sys = readonly_sys and s = app_x and fs = locked_fs
            and e = PermissionError and selected = "tmp_x @ [lit ''.lnk'']"]
       d l n
  show ?thesis by (simp add: readonly_sys_def)
qed

text \<open>
  Claim C10. The delete callback chooses its request by \<open>selected.is_dir()\<close>, which
  follows symbolic links: for a selected entry that is itself a symbolic link and that
  resolves to a directory, the request is \<open>rmtree\<close> on the link's own path, never
  \<open>unlink\<close>.
\<close>

theorem delete_dispatch_follows_symlink:
  assumes "lstat fs selected = Inr (Symlink target)"
      and "stat fs selected = Inr (Dir r ents)"
  shows "is_symlink fs selected = Inr True \<and> is_dir fs selected = Inr True \<and>
         delete_call fs selected = Inr (Rmtree selected) \<and>
         delete_call fs selected \<noteq> Inr (Unlink selected) \<and>
         delete_on_result sys fs s selected True = mutate sys (Rmtree selected) fs s"
  using assms
  by (simp add: is_symlink_def is_dir_def delete_call_def delete_on_result_def)

theorem delete_dispatch_follows_symlink_witness:
  "lstat (scenario_fs [e_A, e_link]) (tmp_x @ [lit ''link'']) =
     Inr (Symlink (tmp_x @ [lit ''A''])) \<and>
   stat (scenario_fs [e_A, e_link]) (tmp_x @ [lit ''link'']) = Inr (Dir True []) \<and>
   delete_call (scenario_fs [e_A, e_link]) (tmp_x @ [lit ''link'']) =
     Inr (Rmtree (tmp_x @ [lit ''link''])) \<and>
   delete_call (scenario_fs [e_btxt, (lit ''l2'', Symlink (tmp_x @ [lit ''b.txt'']))])
     (tmp_x @ [lit ''l2'']) = Inr (Unlink (tmp_x @ [lit ''l2'']))"
proof -
  let ?fs = "scenario_fs [e_A, e_link]"
  let ?p = "tmp_x @ [lit ''link'']"
  have a: "lstat ?fs ?p = Inr (Symlink (tmp_x @ [lit ''A'']))" by code_simp
  have b: "stat ?fs ?p = Inr (Dir True [])" by code_simp
  have c: "delete_call (scenario_fs [e_btxt, (lit ''l2'', Symlink (tmp_x @ [lit ''b.txt'']))])
             (tmp_x @ [lit ''l2'']) = Inr (Unlink (tmp_x @ [lit ''l2'']))"
    by code_simp
  from delete_dispatch_follows_symlink [OF a b, of readonly_sys app_x] a b c show ?thesis
    by simp
qed


end
